theory Spec2Isabelle
  imports Main "HOL-Library.Multiset"
begin

section \<open>Strings\<close>

text \<open>
  Go strings are byte sequences, and so is \<^typ>\<open>string\<close>. The program splits strings at
  the one-byte separators \<open>"@"\<close> and \<open>"/"\<close> only, so \<open>strings.Split\<close> is modelled for a
  one-byte separator: find the first separator (\<open>strings.Index\<close>), keep what is before
  it, go on behind it; the rest of the string is the last element.
\<close>

fun strings_IndexByte :: "string \<Rightarrow> char \<Rightarrow> nat option" where
  "strings_IndexByte [] c = None"
| "strings_IndexByte (x # xs) c =
     (if x = c then Some 0 else map_option Suc (strings_IndexByte xs c))"

function strings_Split :: "string \<Rightarrow> char \<Rightarrow> string list" where
  "strings_Split s sep =
     (case strings_IndexByte s sep of
        None \<Rightarrow> [s]
      | Some i \<Rightarrow> take i s # strings_Split (drop (i + 1) s) sep)"
  by pat_completeness auto
termination
proof (relation "measure (\<lambda>(s, sep). length s)")
  show "wf (measure (\<lambda>(s, sep). length s))"
    by simp
next
  fix s :: string and sep i
  assume found: "strings_IndexByte s sep = Some i"
  have "s \<noteq> []"
    using found by auto
  then show "((drop (i + 1) s, sep), (s, sep)) \<in> measure (\<lambda>(s, sep). length s)"
    by simp
qed

declare strings_Split.simps [simp del]

definition strings_HasPrefix :: "string \<Rightarrow> string \<Rightarrow> bool" where
  "strings_HasPrefix s pre \<longleftrightarrow> length s \<ge> length pre \<and> take (length pre) s = pre"

text \<open>Lines 421-430: the last path segment of a zone URL.\<close>

definition extractZoneFromURL :: "string \<Rightarrow> string" where
  "extractZoneFromURL zoneURL =
     (if zoneURL = [] then []
      else let parts = strings_Split zoneURL (CHR ''/'')
           in if length parts > 0 then parts ! (length parts - 1) else zoneURL)"

text \<open>Lines 434-443: the last path segment of a region URL.\<close>

definition extractRegionFromURL :: "string \<Rightarrow> string" where
  "extractRegionFromURL regionURL =
     (if regionURL = [] then []
      else let parts = strings_Split regionURL (CHR ''/'')
           in if length parts > 0 then parts ! (length parts - 1) else regionURL)"

section \<open>Resources and the provider\<close>

type_synonym error = string

text \<open>An operation handle is modelled by what \<open>op.Wait(ctx)\<close> returns on it.\<close>

type_synonym operation = "error option"

record vm_instance =
  inst_name :: string
  inst_zone :: string
  inst_status :: string

record instanceInfo =
  info_name :: string
  info_zone :: string

record disk =
  disk_name :: string
  disk_zone :: string
  disk_users :: "string list"
  disk_sizeGb :: int

record address =
  addr_name :: string
  addr_region :: string
  addr_address :: string
  addr_status :: string

record bucket_attrs =
  bkt_name :: string
  bkt_location :: string
  bkt_storageClass :: string

record service_account =
  sa_name :: string
  sa_email :: string
  sa_displayName :: string

text \<open>
  An iterator of the client library: each \<open>Next()\<close> yields an item, or
  \<open>iterator.Done\<close>, or an error.
\<close>

datatype 'a iterator = Done | Failed error | Yield 'a "'a iterator"

text \<open>
  The provider backend the program talks to: what each client constructor, each listing
  and each delete request answers. A delete of the compute API answers an error or an
  operation handle; the IAM and storage deletes answer an error or nothing. Within one
  run the provider answers a request by what the request says, and every call returns:
  the program sets no timeout, and a call that hangs is outside this model.

  The compute and storage listings are iterators, which fetch page after page. The
  listing of service accounts is one request: \<open>serviceAccountsList\<close> is the
  \<open>Accounts\<close> of the answer to \<open>List(name).Do()\<close>, a request without a page token,
  and \<open>serviceAccountsLaterPages\<close> holds the \<open>Accounts\<close> of the pages that the
  \<open>NextPageToken\<close> of that answer leads to, page by page.
\<close>

record provider =
  newInstancesClient :: "error option"
  instancesAggregatedList :: "string \<Rightarrow> (string \<times> vm_instance list) iterator"
  instancesDelete :: "string \<Rightarrow> string \<Rightarrow> string \<Rightarrow> error + operation"
  newDisksClient :: "error option"
  disksAggregatedList :: "string \<Rightarrow> (string \<times> disk list) iterator"
  disksDelete :: "string \<Rightarrow> string \<Rightarrow> string \<Rightarrow> error + operation"
  newAddressesClient :: "error option"
  addressesAggregatedList :: "string \<Rightarrow> (string \<times> address list) iterator"
  addressesDelete :: "string \<Rightarrow> string \<Rightarrow> string \<Rightarrow> error + operation"
  newGlobalAddressesClient :: "error option"
  globalAddressesList :: "string \<Rightarrow> address iterator"
  globalAddressesDelete :: "string \<Rightarrow> string \<Rightarrow> error + operation"
  newStorageClient :: "error option"
  bucketsList :: "string \<Rightarrow> bucket_attrs iterator"
  objectsList :: "string \<Rightarrow> string iterator"
  objectDelete :: "string \<Rightarrow> string \<Rightarrow> error option"
  bucketDelete :: "string \<Rightarrow> error option"
  newIamService :: "error option"
  serviceAccountsList :: "string \<Rightarrow> error + service_account list"
  serviceAccountsLaterPages :: "string \<Rightarrow> service_account list list"
  serviceAccountsDelete :: "string \<Rightarrow> error option"

section \<open>Observable events\<close>

text \<open>
  What a run does is recorded as a trace of events: the log lines (format string and
  arguments, as passed to \<open>log.Printf\<close>), the line printed with \<open>fmt.Printf\<close>, the
  requests sent to the provider, and the waits on an operation (\<open>Wait c\<close> is
  \<open>op.Wait(ctx)\<close> on the operation that the delete request \<open>c\<close> returned).
\<close>

datatype call =
    InstancesAggregatedList string
  | InstancesDelete string string string
  | DisksAggregatedList string
  | DisksDelete string string string
  | AddressesAggregatedList string
  | AddressesDelete string string string
  | GlobalAddressesList string
  | GlobalAddressesDelete string string
  | BucketsList string
  | ObjectsList string
  | ObjectDelete string string
  | BucketDelete string
  | ServiceAccountsList string
  | ServiceAccountsDelete string

datatype arg = S string | I int | B bool | Err error | Strs "string list"

datatype event =
    Log string "arg list"
  | Print string "arg list"
  | Call call
  | Wait call

text \<open>The check mark U+2713 of the success lines, in UTF-8; escape and newline.\<close>

definition check_mark :: string where
  "check_mark = [CHR 0xE2, CHR 0x9C, CHR 0x93]"

definition esc :: string where
  "esc = [CHR 0x1B]"

definition newline :: string where
  "newline = [CHR 0x0A]"

definition apostrophe :: string where
  "apostrophe = [CHR 0x27]"

fun is_mutating :: "call \<Rightarrow> bool" where
  "is_mutating (InstancesDelete p z n) = True"
| "is_mutating (DisksDelete p z n) = True"
| "is_mutating (AddressesDelete p r n) = True"
| "is_mutating (GlobalAddressesDelete p n) = True"
| "is_mutating (ObjectDelete b n) = True"
| "is_mutating (BucketDelete b) = True"
| "is_mutating (ServiceAccountsDelete n) = True"
| "is_mutating c = False"

text \<open>The delete requests of a trace, in the order they were sent.\<close>

fun delete_calls :: "event list \<Rightarrow> call list" where
  "delete_calls [] = []"
| "delete_calls (Call c # es) = (if is_mutating c then c # delete_calls es else delete_calls es)"
| "delete_calls (e # es) = delete_calls es"

section \<open>Concurrency: goroutines joined by a wait group\<close>

text \<open>
  A goroutine body is a sequence of events; goroutines started together and joined by
  \<open>wg.Wait()\<close> run in any interleaving that keeps each body's own order (a log
  line is written under the logger's lock, a request is one call). The goroutine that
  starts them does nothing but start them and wait, so the events before the \<open>go\<close>
  statements come first and those after \<open>wg.Wait()\<close> last.
  \<open>interleave2\<close> lists the interleavings of two bodies, \<open>interleavings\<close> those of a
  list of bodies.
\<close>

fun interleave2 :: "'a list \<Rightarrow> 'a list \<Rightarrow> 'a list list" where
  "interleave2 [] ys = [ys]"
| "interleave2 xs [] = [xs]"
| "interleave2 (x # xs) (y # ys) =
     map ((#) x) (interleave2 xs (y # ys)) @ map ((#) y) (interleave2 (x # xs) ys)"

fun interleavings :: "'a list list \<Rightarrow> 'a list list" where
  "interleavings [] = [[]]"
| "interleavings (t # ts) = concat (map (interleave2 t) (interleavings ts))"

text \<open>Emitting events in front of what the rest of a function does.\<close>

definition emit :: "event list \<Rightarrow> event list \<times> 'a \<Rightarrow> event list \<times> 'a" where
  "emit es r = (es @ fst r, snd r)"

text \<open>
  The delete-then-wait block that the instance, disk and address cleaners each write out
  (lines 145-154, 208-217, 276-285, 326-335): send the delete request; on an error log
  it and stop; otherwise wait on the operation and log the failure or the success.
\<close>

definition delete_and_wait ::
  "call \<Rightarrow> error + operation \<Rightarrow> string \<Rightarrow> string \<Rightarrow> string \<Rightarrow> string \<Rightarrow> event list" where
  "delete_and_wait c r nm err_fmt wait_fmt ok_fmt =
     Call c #
     (case r of
        Inl e \<Rightarrow> [Log err_fmt [S nm, Err e]]
      | Inr opr \<Rightarrow>
          Wait c #
          (case opr of
             Some e \<Rightarrow> [Log wait_fmt [S nm, Err e]]
           | None \<Rightarrow> [Log ok_fmt [S nm]]))"

section \<open>Configuration\<close>

text \<open>Lines 18-28. The cleaners read the global \<open>dryRun\<close>; here it is a parameter.\<close>

definition projectIDs :: "string list" where
  "projectIDs = [''z257c6412e15fa257-tp'', ''mfc4dc04826a8d270-tp'', ''u6c7e2e4892fda638-tp'']"

definition dryRun :: bool where
  "dryRun = False"

section \<open>The VM instance cleaner (lines 81-161)\<close>

text \<open>The inner loop of lines 112-120, for the instances of one pair.\<close>

fun found_instances :: "vm_instance list \<Rightarrow> event list \<times> instanceInfo list" where
  "found_instances [] = ([], [])"
| "found_instances (i # is) =
     (let zone = extractZoneFromURL (inst_zone i)
      in case found_instances is of
           (evs, infos) \<Rightarrow>
             (Log ''  Found VM Instance: %s (zone: %s, status: %s)''
                [S (inst_name i), S zone, S (inst_status i)] # evs,
              \<lparr>info_name = inst_name i, info_zone = zone\<rparr> # infos))"

text \<open>The listing loop of lines 103-121; \<open>instances\<close> is the slice collected so far.\<close>

fun collect_instances ::
  "(string \<times> vm_instance list) iterator \<Rightarrow> instanceInfo list \<Rightarrow>
   event list \<times> (error + instanceInfo list)" where
  "collect_instances Done instances = ([], Inr instances)"
| "collect_instances (Failed e) instances = ([], Inl (''error listing instances: '' @ e))"
| "collect_instances (Yield pair it) instances =
     (case found_instances (snd pair) of
        (evs, infos) \<Rightarrow> emit evs (collect_instances it (instances @ infos)))"

text \<open>The goroutine of lines 138-155, for one instance.\<close>

definition delete_instance :: "provider \<Rightarrow> string \<Rightarrow> instanceInfo \<Rightarrow> event list" where
  "delete_instance w projectID inst =
     delete_and_wait
       (InstancesDelete projectID (info_zone inst) (info_name inst))
       (instancesDelete w projectID (info_zone inst) (info_name inst))
       (info_name inst)
       ''  ERROR deleting instance %s: %v''
       ''  ERROR waiting for deletion of %s: %v''
       (''  '' @ check_mark @ '' Deleted VM instance: %s'')"

text \<open>
  The cleaner: every behaviour it can show, as the trace and the error it returns. In
  live mode the goroutines run between the line "Deleting ... in parallel" and
  \<open>wg.Wait()\<close>.
\<close>

definition deleteVMInstances ::
  "provider \<Rightarrow> bool \<Rightarrow> string \<Rightarrow> (event list \<times> error option) list" where
  "deleteVMInstances w dry projectID =
     (let checking = Log ''[%s] Checking VM instances...'' [S projectID]
      in case newInstancesClient w of
           Some e \<Rightarrow> [([checking], Some (''failed to create instances client: '' @ e))]
         | None \<Rightarrow>
             (case collect_instances (instancesAggregatedList w projectID) [] of
                (evs, Inl e) \<Rightarrow>
                  [(checking # Call (InstancesAggregatedList projectID) # evs, Some e)]
              | (evs, Inr instances) \<Rightarrow>
                  (let pre = checking # Call (InstancesAggregatedList projectID) # evs
                   in if length instances = 0 then
                        [(pre @ [Log ''[%s] No VM instances found'' [S projectID]], None)]
                      else if dry then
                        [(pre @ [Log ''[%s] Would delete %d VM instances''
                                   [S projectID, I (int (length instances))]], None)]
                      else
                        map (\<lambda>t. (pre @
                                  [Log ''[%s] Deleting %d VM instances in parallel...''
                                     [S projectID, I (int (length instances))]] @
                                  t @
                                  [Log ''[%s] All VM deletions complete'' [S projectID]],
                                  None))
                          (interleavings (map (delete_instance w projectID) instances)))))"

section \<open>The disk cleaner (lines 163-229)\<close>

text \<open>The inner loop of lines 188-219; \<open>diskCount\<close> is the counter so far.\<close>

fun disks_of_pair ::
  "provider \<Rightarrow> bool \<Rightarrow> string \<Rightarrow> disk list \<Rightarrow> int \<Rightarrow> event list \<times> int" where
  "disks_of_pair w dry projectID [] diskCount = ([], diskCount)"
| "disks_of_pair w dry projectID (d # ds) diskCount =
     (let zone = extractZoneFromURL (disk_zone d)
      in if length (disk_users d) > 0 then
           emit [Log ''  Skipping disk %s (attached to instances)'' [S (disk_name d)]]
             (disks_of_pair w dry projectID ds diskCount)
         else
           emit
             (Log ''  Found Disk: %s (zone: %s, size: %d GB)''
                [S (disk_name d), S zone, I (disk_sizeGb d)] #
              (if \<not> dry then
                 delete_and_wait
                   (DisksDelete projectID zone (disk_name d))
                   (disksDelete w projectID zone (disk_name d))
                   (disk_name d)
                   ''  ERROR deleting disk %s: %v''
                   ''  ERROR waiting for deletion of %s: %v''
                   (''  '' @ check_mark @ '' Deleted disk: %s'')
               else []))
             (disks_of_pair w dry projectID ds (diskCount + 1)))"

text \<open>The listing loop of lines 179-220.\<close>

fun disks_loop ::
  "provider \<Rightarrow> bool \<Rightarrow> string \<Rightarrow> (string \<times> disk list) iterator \<Rightarrow> int \<Rightarrow>
   event list \<times> (error + int)" where
  "disks_loop w dry projectID Done diskCount = ([], Inr diskCount)"
| "disks_loop w dry projectID (Failed e) diskCount = ([], Inl (''error listing disks: '' @ e))"
| "disks_loop w dry projectID (Yield pair it) diskCount =
     (case disks_of_pair w dry projectID (snd pair) diskCount of
        (evs, diskCount') \<Rightarrow> emit evs (disks_loop w dry projectID it diskCount'))"

definition deleteDisks :: "provider \<Rightarrow> bool \<Rightarrow> string \<Rightarrow> event list \<times> error option" where
  "deleteDisks w dry projectID =
     emit [Log ''[%s] Checking disks...'' [S projectID]]
       (case newDisksClient w of
          Some e \<Rightarrow> ([], Some (''failed to create disks client: '' @ e))
        | None \<Rightarrow>
            emit [Call (DisksAggregatedList projectID)]
              (case disks_loop w dry projectID (disksAggregatedList w projectID) 0 of
                 (evs, Inl e) \<Rightarrow> (evs, Some e)
               | (evs, Inr diskCount) \<Rightarrow>
                   (evs @
                    (if diskCount = 0 then
                       [Log ''[%s] No unattached disks found'' [S projectID]]
                     else if dry then
                       [Log ''[%s] Would delete %d disks'' [S projectID, I diskCount]]
                     else []),
                    None)))"

section \<open>The static address cleaner (lines 231-346)\<close>

text \<open>The inner loop of lines 256-287, over the regional addresses of one pair.\<close>

fun addresses_of_pair ::
  "provider \<Rightarrow> bool \<Rightarrow> string \<Rightarrow> address list \<Rightarrow> int \<Rightarrow> event list \<times> int" where
  "addresses_of_pair w dry projectID [] ipCount = ([], ipCount)"
| "addresses_of_pair w dry projectID (a # as) ipCount =
     (let region = extractRegionFromURL (addr_region a)
      in if addr_status a = ''IN_USE'' then
           emit [Log ''  Skipping address %s (in use)'' [S (addr_name a)]]
             (addresses_of_pair w dry projectID as ipCount)
         else
           emit
             (Log ''  Found Static IP: %s (region: %s, address: %s, status: %s)''
                [S (addr_name a), S region, S (addr_address a), S (addr_status a)] #
              (if \<not> dry then
                 delete_and_wait
                   (AddressesDelete projectID region (addr_name a))
                   (addressesDelete w projectID region (addr_name a))
                   (addr_name a)
                   ''  ERROR releasing address %s: %v''
                   ''  ERROR waiting for release of %s: %v''
                   (''  '' @ check_mark @ '' Released static IP: %s'')
               else []))
             (addresses_of_pair w dry projectID as (ipCount + 1)))"

text \<open>The listing loop of lines 247-288.\<close>

fun addresses_loop ::
  "provider \<Rightarrow> bool \<Rightarrow> string \<Rightarrow> (string \<times> address list) iterator \<Rightarrow> int \<Rightarrow>
   event list \<times> (error + int)" where
  "addresses_loop w dry projectID Done ipCount = ([], Inr ipCount)"
| "addresses_loop w dry projectID (Failed e) ipCount =
     ([], Inl (''error listing addresses: '' @ e))"
| "addresses_loop w dry projectID (Yield pair it) ipCount =
     (case addresses_of_pair w dry projectID (snd pair) ipCount of
        (evs, ipCount') \<Rightarrow> emit evs (addresses_loop w dry projectID it ipCount'))"

text \<open>The loop of lines 302-337 over the global addresses; a listing error ends it.\<close>

fun global_addresses_loop ::
  "provider \<Rightarrow> bool \<Rightarrow> string \<Rightarrow> address iterator \<Rightarrow> int \<Rightarrow> event list \<times> int" where
  "global_addresses_loop w dry projectID Done ipCount = ([], ipCount)"
| "global_addresses_loop w dry projectID (Failed e) ipCount =
     ([Log ''Error listing global addresses: %v'' [Err e]], ipCount)"
| "global_addresses_loop w dry projectID (Yield globalAddr it) ipCount =
     (if addr_status globalAddr = ''IN_USE'' then
        emit [Log ''  Skipping global address %s (in use)'' [S (addr_name globalAddr)]]
          (global_addresses_loop w dry projectID it ipCount)
      else
        emit
          (Log ''  Found Global Static IP: %s (address: %s, status: %s)''
             [S (addr_name globalAddr), S (addr_address globalAddr),
              S (addr_status globalAddr)] #
           (if \<not> dry then
              delete_and_wait
                (GlobalAddressesDelete projectID (addr_name globalAddr))
                (globalAddressesDelete w projectID (addr_name globalAddr))
                (addr_name globalAddr)
                ''  ERROR releasing global address %s: %v''
                ''  ERROR waiting for release of %s: %v''
                (''  '' @ check_mark @ '' Released global static IP: %s'')
            else []))
          (global_addresses_loop w dry projectID it (ipCount + 1)))"

definition releaseStaticIPs :: "provider \<Rightarrow> bool \<Rightarrow> string \<Rightarrow> event list \<times> error option" where
  "releaseStaticIPs w dry projectID =
     emit [Log ''[%s] Checking static IP addresses...'' [S projectID]]
       (case newAddressesClient w of
          Some e \<Rightarrow> ([], Some (''failed to create addresses client: '' @ e))
        | None \<Rightarrow>
            emit [Call (AddressesAggregatedList projectID)]
              (case addresses_loop w dry projectID (addressesAggregatedList w projectID) 0 of
                 (evs, Inl e) \<Rightarrow> (evs, Some e)
               | (evs, Inr ipCount) \<Rightarrow>
                   emit evs
                     (case newGlobalAddressesClient w of
                        Some e \<Rightarrow>
                          ([], Some (''failed to create global addresses client: '' @ e))
                      | None \<Rightarrow>
                          emit [Call (GlobalAddressesList projectID)]
                            (case global_addresses_loop w dry projectID
                                    (globalAddressesList w projectID) ipCount of
                               (gevs, ipCount') \<Rightarrow>
                                 (gevs @
                                  (if ipCount' = 0 then
                                     [Log ''[%s] No unused static IPs found'' [S projectID]]
                                   else if dry then
                                     [Log ''[%s] Would release %d static IPs''
                                        [S projectID, I ipCount']]
                                   else []),
                                  None)))))"

section \<open>The bucket cleaner (lines 348-417)\<close>

text \<open>The loop of lines 380-395 over the objects of one bucket.\<close>

fun delete_objects ::
  "provider \<Rightarrow> string \<Rightarrow> string iterator \<Rightarrow> int \<Rightarrow> event list \<times> int" where
  "delete_objects w bucket Done objCount = ([], objCount)"
| "delete_objects w bucket (Failed e) objCount =
     ([Log ''  ERROR listing objects in bucket %s: %v'' [S bucket, Err e]], objCount)"
| "delete_objects w bucket (Yield obj it) objCount =
     (case objectDelete w bucket obj of
        Some e \<Rightarrow>
          emit [Call (ObjectDelete bucket obj),
                Log ''  ERROR deleting object %s: %v'' [S obj, Err e]]
            (delete_objects w bucket it objCount)
      | None \<Rightarrow>
          emit [Call (ObjectDelete bucket obj)]
            (delete_objects w bucket it (objCount + 1)))"

text \<open>Lines 373-407: empty the bucket, then delete it.\<close>

definition delete_bucket :: "provider \<Rightarrow> string \<Rightarrow> event list" where
  "delete_bucket w bucket =
     [Log ''  Deleting objects in bucket %s...'' [S bucket], Call (ObjectsList bucket)] @
     (case delete_objects w bucket (objectsList w bucket) 0 of
        (evs, objCount) \<Rightarrow>
          evs @
          (if objCount > 0 then
             [Log ''  Deleted %d objects from bucket %s'' [I objCount, S bucket]]
           else []) @
          [Call (BucketDelete bucket)] @
          (case bucketDelete w bucket of
             Some e \<Rightarrow> [Log ''  ERROR deleting bucket %s: %v'' [S bucket, Err e]]
           | None \<Rightarrow> [Log (''  '' @ check_mark @ '' Deleted bucket: %s'') [S bucket]]))"

text \<open>The listing loop of lines 360-408.\<close>

fun buckets_loop ::
  "provider \<Rightarrow> bool \<Rightarrow> bucket_attrs iterator \<Rightarrow> int \<Rightarrow> event list \<times> (error + int)" where
  "buckets_loop w dry Done bucketCount = ([], Inr bucketCount)"
| "buckets_loop w dry (Failed e) bucketCount = ([], Inl (''error listing buckets: '' @ e))"
| "buckets_loop w dry (Yield attrs it) bucketCount =
     emit
       (Log ''  Found Bucket: %s (location: %s, storage class: %s)''
          [S (bkt_name attrs), S (bkt_location attrs), S (bkt_storageClass attrs)] #
        (if \<not> dry then delete_bucket w (bkt_name attrs) else []))
       (buckets_loop w dry it (bucketCount + 1))"

definition deleteBuckets :: "provider \<Rightarrow> bool \<Rightarrow> string \<Rightarrow> event list \<times> error option" where
  "deleteBuckets w dry projectID =
     emit [Log ''[%s] Checking storage buckets...'' [S projectID]]
       (case newStorageClient w of
          Some e \<Rightarrow> ([], Some (''failed to create storage client: '' @ e))
        | None \<Rightarrow>
            emit [Call (BucketsList projectID)]
              (case buckets_loop w dry (bucketsList w projectID) 0 of
                 (evs, Inl e) \<Rightarrow> (evs, Some e)
               | (evs, Inr bucketCount) \<Rightarrow>
                   (evs @
                    (if bucketCount = 0 then
                       [Log ''[%s] No buckets found'' [S projectID]]
                     else if dry then
                       [Log ''[%s] Would delete %d buckets'' [S projectID, I bucketCount]]
                     else []),
                    None)))"

section \<open>The service account cleaner (lines 445-499)\<close>

text \<open>The condition of line 464, with the split of line 463.\<close>

definition is_target_account :: "service_account \<Rightarrow> bool" where
  "is_target_account sa =
     (let emailParts = strings_Split (sa_email sa) (CHR ''@'')
      in if length emailParts > 0
         then strings_HasPrefix (emailParts ! 0) ''vsa-sa-gcnv''
         else False)"

text \<open>The filter loop of lines 461-468: the log lines and \<open>targetAccounts\<close>.\<close>

fun target_accounts :: "service_account list \<Rightarrow> event list \<times> service_account list" where
  "target_accounts [] = ([], [])"
| "target_accounts (sa # sas) =
     (case target_accounts sas of
        (evs, targetAccounts) \<Rightarrow>
          if is_target_account sa then
            (Log ''  Found Service Account: %s (%s)'' [S (sa_email sa), S (sa_displayName sa)]
               # evs,
             sa # targetAccounts)
          else (evs, targetAccounts))"

text \<open>
  The goroutine of lines 485-493, for one account. \<open>Delete(account.Name).Do()\<close> is one
  synchronous request: there is no operation handle and no wait.
\<close>

definition delete_account :: "provider \<Rightarrow> service_account \<Rightarrow> event list" where
  "delete_account w account =
     Call (ServiceAccountsDelete (sa_name account)) #
     (case serviceAccountsDelete w (sa_name account) of
        Some e \<Rightarrow> [Log ''  ERROR deleting service account %s: %v'' [S (sa_email account), Err e]]
      | None \<Rightarrow>
          [Log (''  '' @ check_mark @ '' Deleted service account: %s'') [S (sa_email account)]])"

definition deleteServiceAccounts ::
  "provider \<Rightarrow> bool \<Rightarrow> string \<Rightarrow> (event list \<times> error option) list" where
  "deleteServiceAccounts w dry projectID =
     (let checking = Log ''[%s] Checking service accounts...'' [S projectID]
      in case newIamService w of
           Some e \<Rightarrow> [([checking], Some (''failed to create IAM service: '' @ e))]
         | None \<Rightarrow>
             (case serviceAccountsList w (''projects/'' @ projectID) of
                Inl e \<Rightarrow>
                  [([checking, Call (ServiceAccountsList (''projects/'' @ projectID))],
                    Some (''failed to list service accounts: '' @ e))]
              | Inr accounts \<Rightarrow>
                  (case target_accounts accounts of
                     (evs, targetAccounts) \<Rightarrow>
                       (let pre = checking #
                                  Call (ServiceAccountsList (''projects/'' @ projectID)) # evs
                        in if length targetAccounts = 0 then
                             [(pre @ [Log (''[%s] No service accounts found with prefix '' @
                                           apostrophe @ ''vsa-sa-gcnv'' @ apostrophe)
                                        [S projectID]], None)]
                           else if dry then
                             [(pre @ [Log ''[%s] Would delete %d service accounts''
                                        [S projectID, I (int (length targetAccounts))]], None)]
                           else
                             map (\<lambda>t. (pre @
                                       [Log ''[%s] Deleting %d service accounts in parallel...''
                                          [S projectID, I (int (length targetAccounts))]] @
                                       t @
                                       [Log ''[%s] All service account deletions complete''
                                          [S projectID]],
                                       None))
                               (interleavings (map (delete_account w) targetAccounts))))))"

section \<open>The project orchestrator and the driver (lines 30-79)\<close>

text \<open>\<open>if err != nil { log.Printf(fmt, projectID, err) }\<close>\<close>

definition log_failure :: "string \<Rightarrow> string \<Rightarrow> error option \<Rightarrow> event list" where
  "log_failure fmt projectID err =
     (case err of Some e \<Rightarrow> [Log fmt [S projectID, Err e]] | None \<Rightarrow> [])"

text \<open>
  Lines 44-79: the VM cleaner first; then three goroutines (disks, addresses, service
  accounts) joined by \<open>wg.Wait()\<close>; then the note about buckets, on standard output.
\<close>

definition cleanupProject :: "provider \<Rightarrow> bool \<Rightarrow> string \<Rightarrow> event list list" where
  "cleanupProject w dry projectID =
     [ fst vm @ log_failure ''Error deleting VM instances in %s: %v'' projectID (snd vm) @
       others @
       [Print (esc @ ''[31m[%s] Note: Storage buckets must be deleted manually via GCP Console''
                 @ esc @ ''[0m'' @ newline) [S projectID]].
       vm \<leftarrow> deleteVMInstances w dry projectID,
       sa \<leftarrow> deleteServiceAccounts w dry projectID,
       others \<leftarrow> interleavings
         [fst (deleteDisks w dry projectID) @
            log_failure ''Error deleting disks in %s: %v'' projectID
              (snd (deleteDisks w dry projectID)),
          fst (releaseStaticIPs w dry projectID) @
            log_failure ''Error releasing static IPs in %s: %v'' projectID
              (snd (releaseStaticIPs w dry projectID)),
          fst sa @
            log_failure ''Error deleting service accounts in %s: %v'' projectID (snd sa)] ]"

text \<open>The loop of lines 36-39.\<close>

fun process_projects :: "provider \<Rightarrow> bool \<Rightarrow> string list \<Rightarrow> event list list" where
  "process_projects w dry [] = [[]]"
| "process_projects w dry (projectID # rest) =
     [ Log (newline @ ''========== Processing Project: %s =========='') [S projectID] #
       t @ ts.
       t \<leftarrow> cleanupProject w dry projectID,
       ts \<leftarrow> process_projects w dry rest ]"

text \<open>Lines 30-42: every trace the driver can show for a project list.\<close>

definition main :: "provider \<Rightarrow> bool \<Rightarrow> string list \<Rightarrow> event list list" where
  "main w dry ids =
     map (\<lambda>ts. [Log ''Starting GCP cleanup script (Dry Run: %v)'' [B dry],
                Log ''Projects to clean: %v'' [Strs ids]] @
               ts @
               [Log (newline @ ''========== Cleanup Complete =========='') []])
       (process_projects w dry ids)"

section \<open>Notions the properties are stated with\<close>

text \<open>The local part of an email address: what stands before the first \<open>"@"\<close>.\<close>

definition local_part :: "string \<Rightarrow> string" where
  "local_part email = takeWhile (\<lambda>c. c \<noteq> CHR ''@'') email"

text \<open>
  What an aggregated listing hands to the loop body before it ends (with
  \<open>iterator.Done\<close> or with an error), and whether it ends without an error.
\<close>

fun listed :: "(string \<times> 'a list) iterator \<Rightarrow> 'a list" where
  "listed Done = []"
| "listed (Failed e) = []"
| "listed (Yield pair it) = snd pair @ listed it"

fun yielded :: "'a iterator \<Rightarrow> 'a list" where
  "yielded Done = []"
| "yielded (Failed e) = []"
| "yielded (Yield x it) = x # yielded it"

fun completes :: "'a iterator \<Rightarrow> bool" where
  "completes Done = True"
| "completes (Failed e) = False"
| "completes (Yield x it) = completes it"

text \<open>The delete requests of lines 140-144, 203-207, 271-275, 322-325 and 487.\<close>

definition instance_delete_call :: "string \<Rightarrow> vm_instance \<Rightarrow> call" where
  "instance_delete_call projectID i =
     InstancesDelete projectID (extractZoneFromURL (inst_zone i)) (inst_name i)"

definition disk_delete_call :: "string \<Rightarrow> disk \<Rightarrow> call" where
  "disk_delete_call projectID d =
     DisksDelete projectID (extractZoneFromURL (disk_zone d)) (disk_name d)"

definition address_delete_call :: "string \<Rightarrow> address \<Rightarrow> call" where
  "address_delete_call projectID a =
     AddressesDelete projectID (extractRegionFromURL (addr_region a)) (addr_name a)"

definition global_address_delete_call :: "string \<Rightarrow> address \<Rightarrow> call" where
  "global_address_delete_call projectID a = GlobalAddressesDelete projectID (addr_name a)"

definition account_delete_call :: "service_account \<Rightarrow> call" where
  "account_delete_call sa = ServiceAccountsDelete (sa_name sa)"

text \<open>
  An event of a run that changes nothing at the provider: a log line, a printed line or
  a listing request.
\<close>

fun observation_only :: "event \<Rightarrow> bool" where
  "observation_only (Log f args) = True"
| "observation_only (Print f args) = True"
| "observation_only (Call c) = (\<not> is_mutating c)"
| "observation_only (Wait c) = False"

section \<open>Concrete providers\<close>

text \<open>A provider with no resources at all, whose every request succeeds.\<close>

definition quiet :: provider where
  "quiet =
     \<lparr> newInstancesClient = None,
       instancesAggregatedList = (\<lambda>p. Done),
       instancesDelete = (\<lambda>p z n. Inr None),
       newDisksClient = None,
       disksAggregatedList = (\<lambda>p. Done),
       disksDelete = (\<lambda>p z n. Inr None),
       newAddressesClient = None,
       addressesAggregatedList = (\<lambda>p. Done),
       addressesDelete = (\<lambda>p r n. Inr None),
       newGlobalAddressesClient = None,
       globalAddressesList = (\<lambda>p. Done),
       globalAddressesDelete = (\<lambda>p n. Inr None),
       newStorageClient = None,
       bucketsList = (\<lambda>p. Done),
       objectsList = (\<lambda>b. Done),
       objectDelete = (\<lambda>b n. None),
       bucketDelete = (\<lambda>b. None),
       newIamService = None,
       serviceAccountsList = (\<lambda>p. Inr []),
       serviceAccountsLaterPages = (\<lambda>p. []),
       serviceAccountsDelete = (\<lambda>n. None) \<rparr>"

text \<open>Two service accounts: one made by the automation, one not.\<close>

definition automation_account :: service_account where
  "automation_account =
     \<lparr> sa_name = ''projects/proj/serviceAccounts/vsa-sa-gcnv-123@proj.iam'',
       sa_email = ''vsa-sa-gcnv-123@proj.iam'',
       sa_displayName = ''automation'' \<rparr>"

definition other_account :: service_account where
  "other_account =
     \<lparr> sa_name = ''projects/proj/serviceAccounts/other-sa@proj.iam'',
       sa_email = ''other-sa@proj.iam'',
       sa_displayName = ''other'' \<rparr>"


text \<open>The addresses the address cleaner meets whose status is not \<open>IN_USE\<close>.\<close>

definition unused_regional :: "provider \<Rightarrow> string \<Rightarrow> address list" where
  "unused_regional w projectID =
     filter (\<lambda>a. addr_status a \<noteq> ''IN_USE'') (listed (addressesAggregatedList w projectID))"

definition unused_global :: "provider \<Rightarrow> string \<Rightarrow> address list" where
  "unused_global w projectID =
     filter (\<lambda>a. addr_status a \<noteq> ''IN_USE'') (yielded (globalAddressesList w projectID))"

text \<open>Two disks, the larger one attached; a regional and a global address of each status.\<close>

definition two_disks :: provider where
  "two_disks = quiet \<lparr> disksAggregatedList := (\<lambda>p. Yield (''zones/z1'',
       [\<lparr>disk_name = ''boot'', disk_zone = ''https://compute/v1/projects/proj/zones/z1'',
         disk_users = [''https://compute/v1/projects/proj/zones/z1/instances/vm1''],
         disk_sizeGb = 500\<rparr>,
        \<lparr>disk_name = ''spare'', disk_zone = ''https://compute/v1/projects/proj/zones/z1'',
         disk_users = [], disk_sizeGb = 10\<rparr>]) Done) \<rparr>"

definition four_addresses :: provider where
  "four_addresses = quiet
     \<lparr> addressesAggregatedList := (\<lambda>p. Yield (''regions/r1'',
         [\<lparr>addr_name = ''lb'', addr_region = ''https://compute/v1/projects/proj/regions/r1'',
           addr_address = ''10.0.0.1'', addr_status = ''IN_USE''\<rparr>,
          \<lparr>addr_name = ''old'', addr_region = ''https://compute/v1/projects/proj/regions/r1'',
           addr_address = ''10.0.0.2'', addr_status = ''RESERVED''\<rparr>]) Done),
       globalAddressesList := (\<lambda>p. Yield
          \<lparr>addr_name = ''front'', addr_region = [], addr_address = ''10.0.0.3'',
           addr_status = ''IN_USE''\<rparr>
         (Yield
          \<lparr>addr_name = ''unused'', addr_region = [], addr_address = ''10.0.0.4'',
           addr_status = ''RESERVED''\<rparr> Done)) \<rparr>"

text \<open>
  The five resource types, and the requests a cleaner of each type may send for a
  project in a given mode: its own listing, and its own delete requests in live mode
  only. Of the delete requests only those of the compute API return an operation.
\<close>

datatype cleaner = VMs | Disks | Addresses | Buckets | Accounts

fun request_of :: "cleaner \<Rightarrow> bool \<Rightarrow> string \<Rightarrow> call \<Rightarrow> bool" where
  "request_of k dry p (InstancesAggregatedList q) = (k = VMs \<and> q = p)"
| "request_of k dry p (InstancesDelete q z n) = (k = VMs \<and> \<not> dry \<and> q = p)"
| "request_of k dry p (DisksAggregatedList q) = (k = Disks \<and> q = p)"
| "request_of k dry p (DisksDelete q z n) = (k = Disks \<and> \<not> dry \<and> q = p)"
| "request_of k dry p (AddressesAggregatedList q) = (k = Addresses \<and> q = p)"
| "request_of k dry p (AddressesDelete q r n) = (k = Addresses \<and> \<not> dry \<and> q = p)"
| "request_of k dry p (GlobalAddressesList q) = (k = Addresses \<and> q = p)"
| "request_of k dry p (GlobalAddressesDelete q n) = (k = Addresses \<and> \<not> dry \<and> q = p)"
| "request_of k dry p (BucketsList q) = (k = Buckets \<and> q = p)"
| "request_of k dry p (ObjectsList b) = (k = Buckets \<and> \<not> dry)"
| "request_of k dry p (ObjectDelete b n) = (k = Buckets \<and> \<not> dry)"
| "request_of k dry p (BucketDelete b) = (k = Buckets \<and> \<not> dry)"
| "request_of k dry p (ServiceAccountsList q) = (k = Accounts \<and> q = ''projects/'' @ p)"
| "request_of k dry p (ServiceAccountsDelete n) = (k = Accounts \<and> \<not> dry)"

fun has_operation :: "call \<Rightarrow> bool" where
  "has_operation (InstancesDelete p z n) = True"
| "has_operation (DisksDelete p z n) = True"
| "has_operation (AddressesDelete p r n) = True"
| "has_operation (GlobalAddressesDelete p n) = True"
| "has_operation c = False"

fun cleaner_event :: "cleaner \<Rightarrow> bool \<Rightarrow> string \<Rightarrow> event \<Rightarrow> bool" where
  "cleaner_event k dry p (Log f args) = True"
| "cleaner_event k dry p (Print f args) = False"
| "cleaner_event k dry p (Call c) = request_of k dry p c"
| "cleaner_event k dry p (Wait c) = (request_of k dry p c \<and> has_operation c)"

text \<open>A request, or a wait, that concerns resources of a given type.\<close>

fun call_about :: "call \<Rightarrow> cleaner" where
  "call_about (InstancesAggregatedList q) = VMs"
| "call_about (InstancesDelete q z n) = VMs"
| "call_about (DisksAggregatedList q) = Disks"
| "call_about (DisksDelete q z n) = Disks"
| "call_about (AddressesAggregatedList q) = Addresses"
| "call_about (AddressesDelete q r n) = Addresses"
| "call_about (GlobalAddressesList q) = Addresses"
| "call_about (GlobalAddressesDelete q n) = Addresses"
| "call_about (BucketsList q) = Buckets"
| "call_about (ObjectsList b) = Buckets"
| "call_about (ObjectDelete b n) = Buckets"
| "call_about (BucketDelete b) = Buckets"
| "call_about (ServiceAccountsList q) = Accounts"
| "call_about (ServiceAccountsDelete n) = Accounts"

fun touches :: "cleaner \<Rightarrow> event \<Rightarrow> bool" where
  "touches k (Call c) = (call_about c = k)"
| "touches k (Wait c) = (call_about c = k)"
| "touches k e = False"

text \<open>The note that ends the processing of a project (line 78).\<close>

definition bucket_note :: "string \<Rightarrow> event" where
  "bucket_note projectID =
     Print (esc @ ''[31m[%s] Note: Storage buckets must be deleted manually via GCP Console''
              @ esc @ ''[0m'' @ newline) [S projectID]"

text \<open>
  The scenario of the specification: two instances (one running), one disk without
  attachments, one reserved regional address, one global address in use, one service
  account made by the automation; and the trace of a dry run in which the three
  concurrent cleaners happen to run one after the other.
\<close>

definition scenario :: provider where
  "scenario = quiet
     \<lparr> instancesAggregatedList := (\<lambda>p. Yield (''zones/z1'',
         [\<lparr>inst_name = ''vm1'', inst_zone = ''https://compute/v1/projects/proj/zones/z1'',
           inst_status = ''RUNNING''\<rparr>,
          \<lparr>inst_name = ''vm2'', inst_zone = ''https://compute/v1/projects/proj/zones/z1'',
           inst_status = ''TERMINATED''\<rparr>]) Done),
       disksAggregatedList := (\<lambda>p. Yield (''zones/z1'',
         [\<lparr>disk_name = ''spare'', disk_zone = ''https://compute/v1/projects/proj/zones/z1'',
           disk_users = [], disk_sizeGb = 10\<rparr>]) Done),
       addressesAggregatedList := (\<lambda>p. Yield (''regions/r1'',
         [\<lparr>addr_name = ''old'', addr_region = ''https://compute/v1/projects/proj/regions/r1'',
           addr_address = ''10.0.0.2'', addr_status = ''RESERVED''\<rparr>]) Done),
       globalAddressesList := (\<lambda>p. Yield
          \<lparr>addr_name = ''front'', addr_region = [], addr_address = ''10.0.0.3'',
           addr_status = ''IN_USE''\<rparr> Done),
       serviceAccountsList := (\<lambda>p. Inr [automation_account]) \<rparr>"

definition dry_run_trace :: "event list" where
  "dry_run_trace =
     [Log ''Starting GCP cleanup script (Dry Run: %v)'' [B True],
      Log ''Projects to clean: %v'' [Strs [''proj'']],
      Log (newline @ ''========== Processing Project: %s =========='') [S ''proj''],
      Log ''[%s] Checking VM instances...'' [S ''proj''],
      Call (InstancesAggregatedList ''proj''),
      Log ''  Found VM Instance: %s (zone: %s, status: %s)'' [S ''vm1'', S ''z1'', S ''RUNNING''],
      Log ''  Found VM Instance: %s (zone: %s, status: %s)''
        [S ''vm2'', S ''z1'', S ''TERMINATED''],
      Log ''[%s] Would delete %d VM instances'' [S ''proj'', I 2],
      Log ''[%s] Checking disks...'' [S ''proj''],
      Call (DisksAggregatedList ''proj''),
      Log ''  Found Disk: %s (zone: %s, size: %d GB)'' [S ''spare'', S ''z1'', I 10],
      Log ''[%s] Would delete %d disks'' [S ''proj'', I 1],
      Log ''[%s] Checking static IP addresses...'' [S ''proj''],
      Call (AddressesAggregatedList ''proj''),
      Log ''  Found Static IP: %s (region: %s, address: %s, status: %s)''
        [S ''old'', S ''r1'', S ''10.0.0.2'', S ''RESERVED''],
      Call (GlobalAddressesList ''proj''),
      Log ''  Skipping global address %s (in use)'' [S ''front''],
      Log ''[%s] Would release %d static IPs'' [S ''proj'', I 1],
      Log ''[%s] Checking service accounts...'' [S ''proj''],
      Call (ServiceAccountsList ''projects/proj''),
      Log ''  Found Service Account: %s (%s)'' [S ''vsa-sa-gcnv-123@proj.iam'', S ''automation''],
      Log ''[%s] Would delete %d service accounts'' [S ''proj'', I 1],
      bucket_note ''proj'',
      Log (newline @ ''========== Cleanup Complete =========='') []]"

text \<open>A project whose only resource is a bucket holding one object.\<close>

definition one_bucket :: provider where
  "one_bucket = quiet
     \<lparr> bucketsList := (\<lambda>p. Yield
          \<lparr>bkt_name = ''logs'', bkt_location = ''US'', bkt_storageClass = ''STANDARD''\<rparr> Done),
       objectsList := (\<lambda>b. Yield ''day1'' Done) \<rparr>"

definition one_bucket_trace :: "event list" where
  "one_bucket_trace =
     [Log ''[%s] Checking VM instances...'' [S ''proj''],
      Call (InstancesAggregatedList ''proj''),
      Log ''[%s] No VM instances found'' [S ''proj''],
      Log ''[%s] Checking disks...'' [S ''proj''],
      Call (DisksAggregatedList ''proj''),
      Log ''[%s] No unattached disks found'' [S ''proj''],
      Log ''[%s] Checking static IP addresses...'' [S ''proj''],
      Call (AddressesAggregatedList ''proj''),
      Call (GlobalAddressesList ''proj''),
      Log ''[%s] No unused static IPs found'' [S ''proj''],
      Log ''[%s] Checking service accounts...'' [S ''proj''],
      Call (ServiceAccountsList ''projects/proj''),
      Log (''[%s] No service accounts found with prefix '' @
           apostrophe @ ''vsa-sa-gcnv'' @ apostrophe) [S ''proj''],
      bucket_note ''proj'']"

text \<open>
  A project with a running instance, whose deletion the provider refuses, and an
  unattached disk; and the trace of a live run in which the three concurrent cleaners
  happen to run one after the other.
\<close>

definition vm_and_disk :: provider where
  "vm_and_disk = quiet
     \<lparr> instancesAggregatedList := (\<lambda>p. Yield (''zones/z1'',
         [\<lparr>inst_name = ''vm1'', inst_zone = ''https://compute/v1/projects/proj/zones/z1'',
           inst_status = ''RUNNING''\<rparr>]) Done),
       instancesDelete := (\<lambda>p z n. Inl ''denied''),
       disksAggregatedList := (\<lambda>p. Yield (''zones/z1'',
         [\<lparr>disk_name = ''spare'', disk_zone = ''https://compute/v1/projects/proj/zones/z1'',
           disk_users = [], disk_sizeGb = 10\<rparr>]) Done) \<rparr>"

definition vm_and_disk_vm_run :: "event list" where
  "vm_and_disk_vm_run =
     [Log ''[%s] Checking VM instances...'' [S ''proj''],
      Call (InstancesAggregatedList ''proj''),
      Log ''  Found VM Instance: %s (zone: %s, status: %s)'' [S ''vm1'', S ''z1'', S ''RUNNING''],
      Log ''[%s] Deleting %d VM instances in parallel...'' [S ''proj'', I 1],
      Call (InstancesDelete ''proj'' ''z1'' ''vm1''),
      Log ''  ERROR deleting instance %s: %v'' [S ''vm1'', Err ''denied''],
      Log ''[%s] All VM deletions complete'' [S ''proj'']]"

definition vm_and_disk_rest :: "event list" where
  "vm_and_disk_rest =
     [Log ''[%s] Checking disks...'' [S ''proj''],
      Call (DisksAggregatedList ''proj''),
      Log ''  Found Disk: %s (zone: %s, size: %d GB)'' [S ''spare'', S ''z1'', I 10],
      Call (DisksDelete ''proj'' ''z1'' ''spare''),
      Wait (DisksDelete ''proj'' ''z1'' ''spare''),
      Log (''  '' @ check_mark @ '' Deleted disk: %s'') [S ''spare''],
      Log ''[%s] Checking static IP addresses...'' [S ''proj''],
      Call (AddressesAggregatedList ''proj''),
      Call (GlobalAddressesList ''proj''),
      Log ''[%s] No unused static IPs found'' [S ''proj''],
      Log ''[%s] Checking service accounts...'' [S ''proj''],
      Call (ServiceAccountsList ''projects/proj''),
      Log (''[%s] No service accounts found with prefix '' @
           apostrophe @ ''vsa-sa-gcnv'' @ apostrophe) [S ''proj''],
      bucket_note ''proj'']"

section \<open>The service accounts of a project\<close>

text \<open>
  The accounts the cleaner reads, which are those of the one answer it asks for, and the
  accounts the listing of the project holds on all its pages.
\<close>

definition listed_accounts :: "provider \<Rightarrow> string \<Rightarrow> service_account list" where
  "listed_accounts w projectID =
     (case serviceAccountsList w (''projects/'' @ projectID) of
        Inl e \<Rightarrow> []
      | Inr accounts \<Rightarrow> accounts)"

definition project_accounts :: "provider \<Rightarrow> string \<Rightarrow> service_account list" where
  "project_accounts w projectID =
     (case serviceAccountsList w (''projects/'' @ projectID) of
        Inl e \<Rightarrow> []
      | Inr accounts \<Rightarrow>
          accounts @ concat (serviceAccountsLaterPages w (''projects/'' @ projectID)))"

section \<open>The shape of a run\<close>

text \<open>
  The lines that report the success of a deletion. Every other event that is neither a
  delete request nor a wait is a remark: it says something, or lists something.
\<close>

definition success_formats :: "string list" where
  "success_formats =
     [''  '' @ check_mark @ '' Deleted VM instance: %s'',
      ''  '' @ check_mark @ '' Deleted disk: %s'',
      ''  '' @ check_mark @ '' Released static IP: %s'',
      ''  '' @ check_mark @ '' Released global static IP: %s'',
      ''  '' @ check_mark @ '' Deleted service account: %s'']"

fun remark :: "event \<Rightarrow> bool" where
  "remark (Log f args) = (f \<notin> set success_formats)"
| "remark (Print f args) = True"
| "remark (Call c) = (\<not> is_mutating c)"
| "remark (Wait c) = False"

text \<open>
  The events of the deletion of one item: a delete-then-wait block of an instance, a disk,
  a regional or a global address, with the answer of this provider, or the deletion of
  one of the service accounts \<open>accts\<close>.
\<close>

inductive item_block :: "provider \<Rightarrow> service_account list \<Rightarrow> event list \<Rightarrow> bool"
  for w accts where
  vm: "item_block w accts (delete_instance w p inst)"
| disk:
    "item_block w accts
       (delete_and_wait (DisksDelete p z n) (disksDelete w p z n) n
          ''  ERROR deleting disk %s: %v''
          ''  ERROR waiting for deletion of %s: %v''
          (''  '' @ check_mark @ '' Deleted disk: %s''))"
| address:
    "item_block w accts
       (delete_and_wait (AddressesDelete p r n) (addressesDelete w p r n) n
          ''  ERROR releasing address %s: %v''
          ''  ERROR waiting for release of %s: %v''
          (''  '' @ check_mark @ '' Released static IP: %s''))"
| global_address:
    "item_block w accts
       (delete_and_wait (GlobalAddressesDelete p n) (globalAddressesDelete w p n) n
          ''  ERROR releasing global address %s: %v''
          ''  ERROR waiting for release of %s: %v''
          (''  '' @ check_mark @ '' Released global static IP: %s''))"
| account: "a \<in> set accts \<Longrightarrow> item_block w accts (delete_account w a)"

text \<open>
  A sequential run is built from remarks and item blocks, one after the other; a
  concurrent run may also interleave two runs. The two predicates serve the proofs only:
  every trace of the program is shown to be such a run, and a property of all runs is
  then shown by induction over how a run is built.
\<close>

inductive sequential_run :: "provider \<Rightarrow> service_account list \<Rightarrow> event list \<Rightarrow> bool"
  for w accts where
  nil: "sequential_run w accts []"
| remark: "remark e \<Longrightarrow> sequential_run w accts [e]"
| item: "item_block w accts b \<Longrightarrow> sequential_run w accts b"
| append: "sequential_run w accts xs \<Longrightarrow> sequential_run w accts ys \<Longrightarrow> sequential_run w accts (xs @ ys)"

inductive concurrent_run :: "provider \<Rightarrow> service_account list \<Rightarrow> event list \<Rightarrow> bool"
  for w accts where
  nil: "concurrent_run w accts []"
| remark: "remark e \<Longrightarrow> concurrent_run w accts [e]"
| item: "item_block w accts b \<Longrightarrow> concurrent_run w accts b"
| shuffle:
    "concurrent_run w accts xs \<Longrightarrow> concurrent_run w accts ys \<Longrightarrow> t \<in> shuffles xs ys \<Longrightarrow>
     concurrent_run w accts t"

section \<open>Waiting for a deletion before reporting it\<close>




text \<open>The line that reports the success of a delete request of the compute API.\<close>

fun success_line :: "call \<Rightarrow> event option" where
  "success_line (InstancesDelete p z n) =
     Some (Log (''  '' @ check_mark @ '' Deleted VM instance: %s'') [S n])"
| "success_line (DisksDelete p z n) =
     Some (Log (''  '' @ check_mark @ '' Deleted disk: %s'') [S n])"
| "success_line (AddressesDelete p r n) =
     Some (Log (''  '' @ check_mark @ '' Released static IP: %s'') [S n])"
| "success_line (GlobalAddressesDelete p n) =
     Some (Log (''  '' @ check_mark @ '' Released global static IP: %s'') [S n])"
| "success_line c = None"


definition vm_and_disk_run :: "event list" where
  "vm_and_disk_run =
     [Log ''Starting GCP cleanup script (Dry Run: %v)'' [B False],
      Log ''Projects to clean: %v'' [Strs [''proj'']],
      Log (newline @ ''========== Processing Project: %s =========='') [S ''proj'']] @
     (vm_and_disk_vm_run @ vm_and_disk_rest) @
     [Log (newline @ ''========== Cleanup Complete =========='') []]"

section \<open>One deletion at a time\<close>

text \<open>
  Whether the provider answers a delete request with an operation; and a trace in which
  deletions are strictly sequential: a delete request is sent only while no operation
  is pending, a wait is a wait on the pending operation and ends it, and nothing is
  pending at the end.
\<close>

fun accepted :: "provider \<Rightarrow> call \<Rightarrow> bool" where
  "accepted w (InstancesDelete p z n) = (\<not> isl (instancesDelete w p z n))"
| "accepted w (DisksDelete p z n) = (\<not> isl (disksDelete w p z n))"
| "accepted w (AddressesDelete p r n) = (\<not> isl (addressesDelete w p r n))"
| "accepted w (GlobalAddressesDelete p n) = (\<not> isl (globalAddressesDelete w p n))"
| "accepted w c = False"

fun strictly_sequential :: "provider \<Rightarrow> call option \<Rightarrow> event list \<Rightarrow> bool" where
  "strictly_sequential w pending [] = (pending = None)"
| "strictly_sequential w pending (Call c # es) =
     (if is_mutating c
      then pending = None \<and> strictly_sequential w (if accepted w c then Some c else None) es
      else strictly_sequential w pending es)"
| "strictly_sequential w pending (Wait c # es) =
     (pending = Some c \<and> strictly_sequential w None es)"
| "strictly_sequential w pending (e # es) = strictly_sequential w pending es"

text \<open>
  Two deletions overlap in a trace when a delete request is followed at once by another
  delete request: the second is sent before the first was waited for or reported.
\<close>

fun is_delete :: "event \<Rightarrow> bool" where
  "is_delete (Call c) = is_mutating c"
| "is_delete e = False"

fun overlapping :: "event list \<Rightarrow> bool" where
  "overlapping (a # b # es) = ((is_delete a \<and> is_delete b) \<or> overlapping (b # es))"
| "overlapping es = False"

text \<open>What the VM cleaner keeps of an instance (lines 113-117).\<close>

definition info_of :: "vm_instance \<Rightarrow> instanceInfo" where
  "info_of i = \<lparr>info_name = inst_name i, info_zone = extractZoneFromURL (inst_zone i)\<rparr>"

text \<open>A project with two instances, two unattached disks and two automation accounts.\<close>

definition pairs :: provider where
  "pairs = quiet
     \<lparr> instancesAggregatedList := (\<lambda>p. Yield (''zones/z1'',
         [\<lparr>inst_name = ''vm1'', inst_zone = ''https://compute/v1/projects/proj/zones/z1'',
           inst_status = ''RUNNING''\<rparr>,
          \<lparr>inst_name = ''vm2'', inst_zone = ''https://compute/v1/projects/proj/zones/z1'',
           inst_status = ''TERMINATED''\<rparr>]) Done),
       disksAggregatedList := (\<lambda>p. Yield (''zones/z1'',
         [\<lparr>disk_name = ''spare1'', disk_zone = ''https://compute/v1/projects/proj/zones/z1'',
           disk_users = [], disk_sizeGb = 10\<rparr>,
          \<lparr>disk_name = ''spare2'', disk_zone = ''https://compute/v1/projects/proj/zones/z1'',
           disk_users = [], disk_sizeGb = 20\<rparr>]) Done),
       serviceAccountsList := (\<lambda>p. Inr
         [automation_account,
          \<lparr>sa_name = ''projects/proj/serviceAccounts/vsa-sa-gcnv-456@proj.iam'',
           sa_email = ''vsa-sa-gcnv-456@proj.iam'', sa_displayName = ''automation''\<rparr>]) \<rparr>"

section \<open>Failures\<close>

text \<open>
  The line that reports the failure of a delete request of the compute API, if the
  provider makes it fail: at the request, or at the wait on its operation.
\<close>

fun failure_line :: "provider \<Rightarrow> call \<Rightarrow> event option" where
  "failure_line w (InstancesDelete p z n) =
     (case instancesDelete w p z n of
        Inl e \<Rightarrow> Some (Log ''  ERROR deleting instance %s: %v'' [S n, Err e])
      | Inr (Some e) \<Rightarrow> Some (Log ''  ERROR waiting for deletion of %s: %v'' [S n, Err e])
      | Inr None \<Rightarrow> None)"
| "failure_line w (DisksDelete p z n) =
     (case disksDelete w p z n of
        Inl e \<Rightarrow> Some (Log ''  ERROR deleting disk %s: %v'' [S n, Err e])
      | Inr (Some e) \<Rightarrow> Some (Log ''  ERROR waiting for deletion of %s: %v'' [S n, Err e])
      | Inr None \<Rightarrow> None)"
| "failure_line w (AddressesDelete p r n) =
     (case addressesDelete w p r n of
        Inl e \<Rightarrow> Some (Log ''  ERROR releasing address %s: %v'' [S n, Err e])
      | Inr (Some e) \<Rightarrow> Some (Log ''  ERROR waiting for release of %s: %v'' [S n, Err e])
      | Inr None \<Rightarrow> None)"
| "failure_line w (GlobalAddressesDelete p n) =
     (case globalAddressesDelete w p n of
        Inl e \<Rightarrow> Some (Log ''  ERROR releasing global address %s: %v'' [S n, Err e])
      | Inr (Some e) \<Rightarrow> Some (Log ''  ERROR waiting for release of %s: %v'' [S n, Err e])
      | Inr None \<Rightarrow> None)"
| "failure_line w c = None"

text \<open>
  The delete requests a live run owes to a project: one for each instance listed (when
  the listing ends without an error), for each unattached disk met, for each address met
  that is not in use, and for each service account with the prefix. What the provider
  answers to a delete request plays no part in it.
\<close>

definition candidate_deletes :: "provider \<Rightarrow> string \<Rightarrow> call list" where
  "candidate_deletes w p =
     (if newInstancesClient w = None \<and> completes (instancesAggregatedList w p)
      then map (instance_delete_call p) (listed (instancesAggregatedList w p)) else []) @
     (if newDisksClient w = None
      then map (disk_delete_call p)
             (filter (\<lambda>d. disk_users d = []) (listed (disksAggregatedList w p)))
      else []) @
     (if newAddressesClient w = None
      then map (address_delete_call p) (unused_regional w p) @
           (if completes (addressesAggregatedList w p) \<and> newGlobalAddressesClient w = None
            then map (global_address_delete_call p) (unused_global w p) else [])
      else []) @
     (if newIamService w = None
      then (case serviceAccountsList w (''projects/'' @ p) of
              Inl e \<Rightarrow> []
            | Inr accounts \<Rightarrow> map account_delete_call (filter is_target_account accounts))
      else [])"

text \<open>
  A provider that refuses to delete the first of two unattached disks and the one
  automation account, with a live run of the orchestrator on it; and a provider none of
  whose clients can be created, with a live run of the driver over two projects.
\<close>

definition stubborn :: provider where
  "stubborn = quiet
     \<lparr> disksAggregatedList := (\<lambda>p. Yield (''zones/z1'',
         [\<lparr>disk_name = ''first'', disk_zone = ''https://compute/v1/projects/proj/zones/z1'',
           disk_users = [], disk_sizeGb = 10\<rparr>,
          \<lparr>disk_name = ''second'', disk_zone = ''https://compute/v1/projects/proj/zones/z1'',
           disk_users = [], disk_sizeGb = 20\<rparr>]) Done),
       disksDelete := (\<lambda>p z n. if n = ''first'' then Inl ''resource busy'' else Inr None),
       serviceAccountsList := (\<lambda>p. Inr [automation_account]),
       serviceAccountsDelete := (\<lambda>n. Some ''permission denied'') \<rparr>"

definition stubborn_run :: "event list" where
  "stubborn_run =
     [Log ''[%s] Checking VM instances...'' [S ''proj''],
      Call (InstancesAggregatedList ''proj''),
      Log ''[%s] No VM instances found'' [S ''proj''],
      Log ''[%s] Checking disks...'' [S ''proj''],
      Call (DisksAggregatedList ''proj''),
      Log ''  Found Disk: %s (zone: %s, size: %d GB)'' [S ''first'', S ''z1'', I 10],
      Call (DisksDelete ''proj'' ''z1'' ''first''),
      Log ''  ERROR deleting disk %s: %v'' [S ''first'', Err ''resource busy''],
      Log ''  Found Disk: %s (zone: %s, size: %d GB)'' [S ''second'', S ''z1'', I 20],
      Call (DisksDelete ''proj'' ''z1'' ''second''),
      Wait (DisksDelete ''proj'' ''z1'' ''second''),
      Log (''  '' @ check_mark @ '' Deleted disk: %s'') [S ''second''],
      Log ''[%s] Checking static IP addresses...'' [S ''proj''],
      Call (AddressesAggregatedList ''proj''),
      Call (GlobalAddressesList ''proj''),
      Log ''[%s] No unused static IPs found'' [S ''proj''],
      Log ''[%s] Checking service accounts...'' [S ''proj''],
      Call (ServiceAccountsList ''projects/proj''),
      Log ''  Found Service Account: %s (%s)'' [S ''vsa-sa-gcnv-123@proj.iam'', S ''automation''],
      Log ''[%s] Deleting %d service accounts in parallel...'' [S ''proj'', I 1],
      Call (ServiceAccountsDelete ''projects/proj/serviceAccounts/vsa-sa-gcnv-123@proj.iam''),
      Log ''  ERROR deleting service account %s: %v''
        [S ''vsa-sa-gcnv-123@proj.iam'', Err ''permission denied''],
      Log ''[%s] All service account deletions complete'' [S ''proj''],
      bucket_note ''proj'']"

definition unreachable :: provider where
  "unreachable = quiet
     \<lparr> newInstancesClient := Some ''no credentials'',
       newDisksClient := Some ''no credentials'',
       newAddressesClient := Some ''no credentials'',
       newIamService := Some ''no credentials'' \<rparr>"

definition unreachable_project :: "string \<Rightarrow> event list" where
  "unreachable_project p =
     [Log ''[%s] Checking VM instances...'' [S p],
      Log ''Error deleting VM instances in %s: %v''
        [S p, Err ''failed to create instances client: no credentials''],
      Log ''[%s] Checking disks...'' [S p],
      Log ''Error deleting disks in %s: %v''
        [S p, Err ''failed to create disks client: no credentials''],
      Log ''[%s] Checking static IP addresses...'' [S p],
      Log ''Error releasing static IPs in %s: %v''
        [S p, Err ''failed to create addresses client: no credentials''],
      Log ''[%s] Checking service accounts...'' [S p],
      Log ''Error deleting service accounts in %s: %v''
        [S p, Err ''failed to create IAM service: no credentials''],
      bucket_note p]"

definition unreachable_run :: "event list" where
  "unreachable_run =
     [Log ''Starting GCP cleanup script (Dry Run: %v)'' [B False],
      Log ''Projects to clean: %v'' [Strs [''a'', ''b'']]] @
     (Log (newline @ ''========== Processing Project: %s =========='') [S ''a''] #
      unreachable_project ''a'') @
     (Log (newline @ ''========== Processing Project: %s =========='') [S ''b''] #
      unreachable_project ''b'') @
     [Log (newline @ ''========== Cleanup Complete =========='') []]"

section \<open>Completion of a deletion\<close>

text \<open>
  The line that ends the deletion of an item. For a delete request of the compute API it
  is its failure line when the provider makes the request or the wait fail, and its
  success line otherwise; for a service account it is the error line or the success
  line with the email of the account, by what the provider answers to the one request.
\<close>

definition outcome_line :: "provider \<Rightarrow> call \<Rightarrow> event option" where
  "outcome_line w c = (case failure_line w c of Some l \<Rightarrow> Some l | None \<Rightarrow> success_line c)"

definition account_line :: "provider \<Rightarrow> service_account \<Rightarrow> event" where
  "account_line w a =
     (case serviceAccountsDelete w (sa_name a) of
        Some e \<Rightarrow> Log ''  ERROR deleting service account %s: %v'' [S (sa_email a), Err e]
      | None \<Rightarrow> Log (''  '' @ check_mark @ '' Deleted service account: %s'') [S (sa_email a)])"

text \<open>
  What is due after a delete request, in this order. After a request of the compute API:
  the wait on its operation, if the provider accepted the request, and then the outcome
  line of this very request. After a request to delete the service account named \<open>n\<close>:
  the line of an account of \<open>accts\<close> (the accounts read from the provider) with that
  name. A trace is settled when every delete request in it is followed, later in the
  trace, by what is due after it.
\<close>

fun due :: "provider \<Rightarrow> service_account list \<Rightarrow> call \<Rightarrow> (event \<Rightarrow> bool) list" where
  "due w accts (ServiceAccountsDelete n) =
     [\<lambda>e. list_ex (\<lambda>a. sa_name a = n \<and> e = account_line w a) accts]"
| "due w accts c =
     (if has_operation c
      then (if accepted w c then [\<lambda>e. e = Wait c] else []) @ [\<lambda>e. outcome_line w c = Some e]
      else [])"

fun follows :: "('a \<Rightarrow> bool) list \<Rightarrow> 'a list \<Rightarrow> bool" where
  "follows [] es = True"
| "follows (q # qs) [] = False"
| "follows (q # qs) (e # es) = (if q e then follows qs es else follows (q # qs) es)"

fun settled :: "provider \<Rightarrow> service_account list \<Rightarrow> event list \<Rightarrow> bool" where
  "settled w accts [] = True"
| "settled w accts (Call c # es) = (follows (due w accts c) es \<and> settled w accts es)"
| "settled w accts (e # es) = settled w accts es"

text \<open>
  What may stand at a place of a trace, given the events before it. A wait stands after
  its request, which the provider accepted. A success line of the compute API stands
  after the wait on a delete request that has this success line and that the provider
  let succeed (the line names the item, not its project or zone). The success line of a
  service account stands after the delete request for an account of \<open>accts\<close> with this
  email, which the provider answered without an error.
\<close>

fun is_completed_wait :: "provider \<Rightarrow> event \<Rightarrow> event \<Rightarrow> bool" where
  "is_completed_wait w line (Wait c) = (success_line c = Some line \<and> failure_line w c = None)"
| "is_completed_wait w line e = False"

fun enabled :: "provider \<Rightarrow> service_account list \<Rightarrow> event list \<Rightarrow> event \<Rightarrow> bool" where
  "enabled w accts seen (Wait c) = (Call c \<in> set seen \<and> accepted w c)"
| "enabled w accts seen (Log f args) =
     (if f = ''  '' @ check_mark @ '' Deleted service account: %s''
      then list_ex (\<lambda>a. args = [S (sa_email a)] \<and>
                         serviceAccountsDelete w (sa_name a) = None \<and>
                         Call (ServiceAccountsDelete (sa_name a)) \<in> set seen) accts
      else if f \<in> set success_formats then list_ex (is_completed_wait w (Log f args)) seen
      else True)"
| "enabled w accts seen e = True"

fun completion_order ::
  "provider \<Rightarrow> service_account list \<Rightarrow> event list \<Rightarrow> event list \<Rightarrow> bool" where
  "completion_order w accts seen [] = True"
| "completion_order w accts seen (e # es) =
     (enabled w accts seen e \<and> completion_order w accts (e # seen) es)"



text \<open>
  The part of a trace before the first request or wait about a disk, an address or a
  service account; the line that the orchestrator logs when the VM cleaner returned an
  error (lines 46-48); and the line with which the VM cleaner of a project is over: one
  of its three last lines, or the line that logs the error it returned.
\<close>

definition before_others :: "event list \<Rightarrow> event list" where
  "before_others t =
     takeWhile (\<lambda>e. \<not> touches Disks e \<and> \<not> touches Addresses e \<and> \<not> touches Accounts e) t"

definition vm_error_line :: "string \<Rightarrow> error option \<Rightarrow> event list" where
  "vm_error_line p err =
     (case err of
        None \<Rightarrow> []
      | Some e \<Rightarrow> [Log ''Error deleting VM instances in %s: %v'' [S p, Err e]])"

fun vm_closing :: "string \<Rightarrow> event \<Rightarrow> bool" where
  "vm_closing p (Log f args) =
     (take 1 args = [S p] \<and>
      f \<in> set [''[%s] No VM instances found'',
               ''[%s] Would delete %d VM instances'',
               ''[%s] All VM deletions complete'',
               ''Error deleting VM instances in %s: %v''])"
| "vm_closing p e = False"

text \<open>
  A project with an instance that the provider deletes and an unattached disk; a project
  whose instances cannot be listed, with the same disk; the runs of the VM cleaner and of
  the driver on them, the three later cleaners one after the other.
\<close>

definition instance_and_disk :: provider where
  "instance_and_disk = quiet
     \<lparr> instancesAggregatedList := (\<lambda>p. Yield (''zones/z1'',
         [\<lparr>inst_name = ''vm1'', inst_zone = ''https://compute/v1/projects/proj/zones/z1'',
           inst_status = ''RUNNING''\<rparr>]) Done),
       disksAggregatedList := (\<lambda>p. Yield (''zones/z1'',
         [\<lparr>disk_name = ''spare'', disk_zone = ''https://compute/v1/projects/proj/zones/z1'',
           disk_users = [], disk_sizeGb = 10\<rparr>]) Done) \<rparr>"

definition instance_and_disk_vm_run :: "event list" where
  "instance_and_disk_vm_run =
     [Log ''[%s] Checking VM instances...'' [S ''proj''],
      Call (InstancesAggregatedList ''proj''),
      Log ''  Found VM Instance: %s (zone: %s, status: %s)'' [S ''vm1'', S ''z1'', S ''RUNNING''],
      Log ''[%s] Deleting %d VM instances in parallel...'' [S ''proj'', I 1],
      Call (InstancesDelete ''proj'' ''z1'' ''vm1''),
      Wait (InstancesDelete ''proj'' ''z1'' ''vm1''),
      Log (''  '' @ check_mark @ '' Deleted VM instance: %s'') [S ''vm1''],
      Log ''[%s] All VM deletions complete'' [S ''proj'']]"


definition unlisted :: provider where
  "unlisted = quiet
     \<lparr> instancesAggregatedList := (\<lambda>p. Failed ''quota exceeded''),
       disksAggregatedList := (\<lambda>p. Yield (''zones/z1'',
         [\<lparr>disk_name = ''spare'', disk_zone = ''https://compute/v1/projects/proj/zones/z1'',
           disk_users = [], disk_sizeGb = 10\<rparr>]) Done) \<rparr>"

definition unlisted_vm_run :: "event list" where
  "unlisted_vm_run =
     [Log ''[%s] Checking VM instances...'' [S ''proj''],
      Call (InstancesAggregatedList ''proj'')]"

definition unlisted_error_line :: event where
  "unlisted_error_line =
     Log ''Error deleting VM instances in %s: %v''
       [S ''proj'', Err ''error listing instances: quota exceeded'']"

text \<open>
  A project whose listing of service accounts has two pages: the first answer holds the
  account that is not of the automation, the next page holds the automation account.
\<close>

definition paged :: provider where
  "paged = quiet
     \<lparr> serviceAccountsList := (\<lambda>p. Inr [other_account]),
       serviceAccountsLaterPages := (\<lambda>p. [[automation_account]]) \<rparr>"

section \<open>Strings: facts\<close>

lemma strings_IndexByte_None: "strings_IndexByte s c = None \<longleftrightarrow> c \<notin> set s"
  by (induction s) auto

lemma strings_IndexByte_take:
  "strings_IndexByte s c = Some i \<Longrightarrow> take i s = takeWhile (\<lambda>x. x \<noteq> c) s"
  by (induction s arbitrary: i) (auto split: if_splits)

lemma strings_Split_first:
  "\<exists>rest. strings_Split s c = takeWhile (\<lambda>x. x \<noteq> c) s # rest"
proof (cases "strings_IndexByte s c")
  case None
  then have "c \<notin> set s"
    by (simp add: strings_IndexByte_None)
  then have whole: "takeWhile (\<lambda>x. x \<noteq> c) s = s"
    by (auto simp: takeWhile_eq_all_conv)
  show ?thesis
    by (simp add: strings_Split.simps [of s c] None whole)
next
  case (Some i)
  then show ?thesis
    by (simp add: strings_Split.simps [of s c] strings_IndexByte_take)
qed

lemma strings_Split_no_sep: "c \<notin> set s \<Longrightarrow> strings_Split s c = [s]"
  by (simp add: strings_Split.simps [of s c] strings_IndexByte_None [THEN iffD2])

lemma is_target_account_iff:
  "is_target_account sa \<longleftrightarrow> strings_HasPrefix (local_part (sa_email sa)) ''vsa-sa-gcnv''"
proof -
  obtain rest where "strings_Split (sa_email sa) (CHR ''@'') = local_part (sa_email sa) # rest"
    unfolding local_part_def using strings_Split_first by blast
  then show ?thesis
    by (simp add: is_target_account_def)
qed

lemma snd_target_accounts: "snd (target_accounts accounts) = filter is_target_account accounts"
  by (induction accounts) (auto split: prod.splits)

section \<open>Traces: facts\<close>

lemma fst_emit [simp]: "fst (emit es r) = es @ fst r"
  by (simp add: emit_def)

lemma snd_emit [simp]: "snd (emit es r) = snd r"
  by (simp add: emit_def)

lemma delete_calls_Cons: "delete_calls (e # es) = delete_calls [e] @ delete_calls es"
  by (cases e) auto

lemma delete_calls_append [simp]: "delete_calls (xs @ ys) = delete_calls xs @ delete_calls ys"
  by (induction xs rule: delete_calls.induct) auto

lemma delete_calls_delete_and_wait [simp]:
  "delete_calls (delete_and_wait c r nm f1 f2 f3) = (if is_mutating c then [c] else [])"
  by (auto simp: delete_and_wait_def split: sum.splits option.splits)

lemma list_all_observation_imp_no_delete:
  "list_all observation_only t \<Longrightarrow> delete_calls t = []"
  by (induction t rule: delete_calls.induct) auto

section \<open>Interleavings: facts\<close>

lemma set_interleave2: "set (interleave2 xs ys) = shuffles xs ys"
  by (induction xs ys rule: interleave2.induct) auto

lemma interleavings_Cons_iff:
  "t \<in> set (interleavings (x # ts)) \<longleftrightarrow> (\<exists>r \<in> set (interleavings ts). t \<in> shuffles x r)"
  by (auto simp: set_interleave2)

lemma interleavings_nonempty: "interleavings ts \<noteq> []"
proof (induction ts)
  case Nil
  show ?case by simp
next
  case (Cons x ts)
  then obtain r where r: "r \<in> set (interleavings ts)"
    by (meson last_in_set)
  have "shuffles x r \<noteq> {}"
    using splice_in_shuffles by blast
  then obtain t where "t \<in> shuffles x r"
    by blast
  with r have "t \<in> set (interleavings (x # ts))"
    using interleavings_Cons_iff by blast
  then show ?case
    by (metis empty_iff empty_set)
qed

lemma append_in_shuffles: "xs @ ys \<in> shuffles xs ys"
  by (induction xs) (auto simp: Cons_in_shuffles_iff)

lemma concat_in_interleavings: "concat ts \<in> set (interleavings ts)"
proof (induction ts)
  case Nil
  show ?case by simp
next
  case (Cons x ts)
  then show ?case
    unfolding interleavings_Cons_iff using append_in_shuffles by fastforce
qed

lemma interleavings_set:
  "t \<in> set (interleavings ts) \<Longrightarrow> set t = \<Union> (set ` set ts)"
proof (induction ts arbitrary: t)
  case Nil
  then show ?case by simp
next
  case (Cons x ts)
  then obtain r where "r \<in> set (interleavings ts)" "t \<in> shuffles x r"
    unfolding interleavings_Cons_iff by blast
  then show ?case
    using Cons.IH [of r] set_shuffles [of t x r] by simp
qed

lemma delete_calls_shuffles:
  "t \<in> shuffles xs ys \<Longrightarrow>
   mset (delete_calls t) = mset (delete_calls xs) + mset (delete_calls ys)"
proof (induction xs ys arbitrary: t rule: shuffles.induct)
  case (1 ys)
  then show ?case by simp
next
  case (2 xs)
  then show ?case by simp
next
  case (3 x xs y ys)
  from "3.prems" consider
      t' where "t = x # t'" "t' \<in> shuffles xs (y # ys)"
    | t' where "t = y # t'" "t' \<in> shuffles (x # xs) ys"
    by auto
  then show ?case
  proof cases
    case 1
    then show ?thesis
      using "3.IH"(1) [of t'] delete_calls_Cons [of x t'] delete_calls_Cons [of x xs]
      by simp
  next
    case 2
    then show ?thesis
      using "3.IH"(2) [of t'] delete_calls_Cons [of y t'] delete_calls_Cons [of y ys]
      by simp
  qed
qed

lemma delete_calls_interleavings:
  "t \<in> set (interleavings ts) \<Longrightarrow> mset (delete_calls t) = mset (delete_calls (concat ts))"
proof (induction ts arbitrary: t)
  case Nil
  then show ?case by simp
next
  case (Cons x ts)
  then obtain r where "r \<in> set (interleavings ts)" "t \<in> shuffles x r"
    unfolding interleavings_Cons_iff by blast
  then show ?case
    using Cons.IH [of r] delete_calls_shuffles [of t x r] by simp
qed

declare interleavings.simps [simp del]

section \<open>The disk cleaner: facts\<close>

lemma disks_of_pair_calls:
  "delete_calls (fst (disks_of_pair w dry p ds n)) =
     (if dry then [] else map (disk_delete_call p) (filter (\<lambda>d. disk_users d = []) ds))"
  by (induction ds arbitrary: n) (auto simp: Let_def disk_delete_call_def)

lemma disks_of_pair_count:
  "snd (disks_of_pair w dry p ds n) = n + int (length (filter (\<lambda>d. disk_users d = []) ds))"
  by (induction ds arbitrary: n) (auto simp: Let_def)

lemma disks_loop_calls:
  "delete_calls (fst (disks_loop w dry p it n)) =
     (if dry then [] else map (disk_delete_call p) (filter (\<lambda>d. disk_users d = []) (listed it)))"
proof (induction it arbitrary: n)
  case (Yield pair it)
  show ?case
    using Yield [of "snd (disks_of_pair w dry p (snd pair) n)"]
      disks_of_pair_calls [of w dry p "snd pair" n]
    by (auto split: prod.splits)
qed simp_all

lemma disks_loop_count:
  "snd (disks_loop w dry p it n) = Inr c \<Longrightarrow>
   c = n + int (length (filter (\<lambda>d. disk_users d = []) (listed it)))"
proof (induction it arbitrary: n)
  case (Yield pair it)
  show ?case
    using Yield.prems Yield.IH [of "snd (disks_of_pair w dry p (snd pair) n)"]
      disks_of_pair_count [of w dry p "snd pair" n]
    by (auto split: prod.splits)
qed simp_all

section \<open>The service account cleaner: facts\<close>

lemma target_accounts_no_calls [simp]: "delete_calls (fst (target_accounts accounts)) = []"
  by (induction accounts) (auto split: prod.splits)

lemma delete_calls_accounts:
  "delete_calls (concat (map (delete_account w) xs)) = map account_delete_call xs"
  by (induction xs)
     (auto simp: delete_account_def account_delete_call_def split: option.splits)

lemma deleteServiceAccounts_calls:
  assumes "(t, err) \<in> set (deleteServiceAccounts w dry p)"
  shows "mset (delete_calls t) =
     (if dry \<or> newIamService w \<noteq> None then {#}
      else case serviceAccountsList w (''projects/'' @ p) of
             Inl e \<Rightarrow> {#}
           | Inr accounts \<Rightarrow> mset (map account_delete_call (filter is_target_account accounts)))"
proof (cases "newIamService w")
  case (Some e)
  with assms show ?thesis
    by (auto simp: deleteServiceAccounts_def)
next
  case None
  show ?thesis
  proof (cases "serviceAccountsList w (''projects/'' @ p)")
    case (Inl e)
    with None assms show ?thesis
      by (auto simp: deleteServiceAccounts_def)
  next
    case (Inr accounts)
    obtain evs targets where ta: "target_accounts accounts = (evs, targets)"
      by (cases "target_accounts accounts")
    have targets: "targets = filter is_target_account accounts"
      using snd_target_accounts [of accounts] ta by simp
    have evs: "delete_calls evs = []"
      using target_accounts_no_calls [of accounts] ta by simp
    show ?thesis
    proof (cases "targets = [] \<or> dry")
      case True
      with assms None Inr ta targets evs show ?thesis
        by (auto simp: deleteServiceAccounts_def Let_def filter_empty_conv split: if_splits)
    next
      case False
      with assms None Inr ta obtain r where
        r: "r \<in> set (interleavings (map (delete_account w) targets))" and
        t: "t = (Log ''[%s] Checking service accounts...'' [S p] #
                 Call (ServiceAccountsList (''projects/'' @ p)) # evs) @
                [Log ''[%s] Deleting %d service accounts in parallel...''
                   [S p, I (int (length targets))]] @
                r @ [Log ''[%s] All service account deletions complete'' [S p]]"
        by (auto simp: deleteServiceAccounts_def Let_def)
      have "mset (delete_calls r) = mset (map account_delete_call targets)"
        using delete_calls_interleavings [OF r] delete_calls_accounts [of w targets] by simp
      with t evs False None Inr targets show ?thesis
        by simp
    qed
  qed
qed

lemma first_answer_candidates_by_prefix:
  assumes "newIamService w = None"
    and "serviceAccountsList w (''projects/'' @ p) = Inr accounts"
    and "(t, err) \<in> set (deleteServiceAccounts w False p)"
  shows "snd (target_accounts accounts) =
           filter (\<lambda>sa. strings_HasPrefix (local_part (sa_email sa)) ''vsa-sa-gcnv'') accounts \<and>
         mset (delete_calls t) =
           mset (map account_delete_call
                  (filter (\<lambda>sa. strings_HasPrefix (local_part (sa_email sa)) ''vsa-sa-gcnv'')
                     accounts))"
proof -
  have same: "is_target_account = (\<lambda>sa. strings_HasPrefix (local_part (sa_email sa)) ''vsa-sa-gcnv'')"
    by (rule ext) (rule is_target_account_iff)
  have "mset (delete_calls t) = mset (map account_delete_call (filter is_target_account accounts))"
    using deleteServiceAccounts_calls [OF assms(3)] assms(1,2) by simp
  then show ?thesis
    using snd_target_accounts [of accounts] unfolding same by simp
qed

lemma disks_of_pair_skips:
  "d \<in> set ds \<Longrightarrow> disk_users d \<noteq> [] \<Longrightarrow>
   Log ''  Skipping disk %s (attached to instances)'' [S (disk_name d)]
     \<in> set (fst (disks_of_pair w dry p ds n))"
  by (induction ds arbitrary: n) (auto simp: Let_def)

lemma disks_loop_skips:
  "d \<in> set (listed it) \<Longrightarrow> disk_users d \<noteq> [] \<Longrightarrow>
   Log ''  Skipping disk %s (attached to instances)'' [S (disk_name d)]
     \<in> set (fst (disks_loop w dry p it n))"
proof (induction it arbitrary: n)
  case (Yield pair it)
  show ?case
    using Yield.prems Yield.IH [of "snd (disks_of_pair w dry p (snd pair) n)"]
      disks_of_pair_skips [of d "snd pair" w dry p n]
    by (auto split: prod.splits)
qed simp_all

lemma deleteDisks_calls:
  "delete_calls (fst (deleteDisks w dry p)) =
     (if dry \<or> newDisksClient w \<noteq> None then []
      else map (disk_delete_call p)
             (filter (\<lambda>d. disk_users d = []) (listed (disksAggregatedList w p))))"
  using disks_loop_calls [of w dry p "disksAggregatedList w p" 0]
  by (auto simp: deleteDisks_def split: option.splits prod.splits sum.splits)

section \<open>The address cleaner: facts\<close>

lemma addresses_of_pair_calls:
  "delete_calls (fst (addresses_of_pair w dry p as n)) =
     (if dry then []
      else map (address_delete_call p) (filter (\<lambda>a. addr_status a \<noteq> ''IN_USE'') as))"
  by (induction as arbitrary: n) (auto simp: Let_def address_delete_call_def)

lemma addresses_of_pair_count:
  "snd (addresses_of_pair w dry p as n) =
     n + int (length (filter (\<lambda>a. addr_status a \<noteq> ''IN_USE'') as))"
  by (induction as arbitrary: n) (auto simp: Let_def)

lemma addresses_of_pair_skips:
  "a \<in> set as \<Longrightarrow> addr_status a = ''IN_USE'' \<Longrightarrow>
   Log ''  Skipping address %s (in use)'' [S (addr_name a)]
     \<in> set (fst (addresses_of_pair w dry p as n))"
  by (induction as arbitrary: n) (auto simp: Let_def)

lemma addresses_loop_calls:
  "delete_calls (fst (addresses_loop w dry p it n)) =
     (if dry then []
      else map (address_delete_call p) (filter (\<lambda>a. addr_status a \<noteq> ''IN_USE'') (listed it)))"
proof (induction it arbitrary: n)
  case (Yield pair it)
  show ?case
    using Yield [of "snd (addresses_of_pair w dry p (snd pair) n)"]
      addresses_of_pair_calls [of w dry p "snd pair" n]
    by (auto split: prod.splits)
qed simp_all

lemma addresses_loop_result:
  "completes it \<Longrightarrow>
   snd (addresses_loop w dry p it n) =
     Inr (n + int (length (filter (\<lambda>a. addr_status a \<noteq> ''IN_USE'') (listed it))))"
proof (induction it arbitrary: n)
  case (Yield pair it)
  show ?case
    using Yield.prems Yield.IH [of "snd (addresses_of_pair w dry p (snd pair) n)"]
      addresses_of_pair_count [of w dry p "snd pair" n]
    by (auto split: prod.splits)
qed simp_all

lemma addresses_loop_fails:
  "\<not> completes it \<Longrightarrow> \<exists>e. snd (addresses_loop w dry p it n) = Inl e"
proof (induction it arbitrary: n)
  case (Yield pair it)
  show ?case
    using Yield.prems Yield.IH [of "snd (addresses_of_pair w dry p (snd pair) n)"]
    by (auto split: prod.splits)
qed simp_all

lemma addresses_loop_skips:
  "a \<in> set (listed it) \<Longrightarrow> addr_status a = ''IN_USE'' \<Longrightarrow>
   Log ''  Skipping address %s (in use)'' [S (addr_name a)]
     \<in> set (fst (addresses_loop w dry p it n))"
proof (induction it arbitrary: n)
  case (Yield pair it)
  show ?case
    using Yield.prems Yield.IH [of "snd (addresses_of_pair w dry p (snd pair) n)"]
      addresses_of_pair_skips [of a "snd pair" w dry p n]
    by (auto split: prod.splits)
qed simp_all

lemma global_addresses_loop_calls:
  "delete_calls (fst (global_addresses_loop w dry p it n)) =
     (if dry then []
      else map (global_address_delete_call p)
             (filter (\<lambda>a. addr_status a \<noteq> ''IN_USE'') (yielded it)))"
  by (induction it arbitrary: n) (auto simp: global_address_delete_call_def)

lemma global_addresses_loop_count:
  "snd (global_addresses_loop w dry p it n) =
     n + int (length (filter (\<lambda>a. addr_status a \<noteq> ''IN_USE'') (yielded it)))"
  by (induction it arbitrary: n) auto

lemma global_addresses_loop_skips:
  "a \<in> set (yielded it) \<Longrightarrow> addr_status a = ''IN_USE'' \<Longrightarrow>
   Log ''  Skipping global address %s (in use)'' [S (addr_name a)]
     \<in> set (fst (global_addresses_loop w dry p it n))"
  by (induction it arbitrary: n) auto

lemma releaseStaticIPs_calls:
  "delete_calls (fst (releaseStaticIPs w dry p)) =
     (if dry \<or> newAddressesClient w \<noteq> None then []
      else map (address_delete_call p) (unused_regional w p) @
           (if completes (addressesAggregatedList w p) \<and> newGlobalAddressesClient w = None
            then map (global_address_delete_call p) (unused_global w p) else []))"
proof -
  obtain evs r where al: "addresses_loop w dry p (addressesAggregatedList w p) 0 = (evs, r)"
    by (cases "addresses_loop w dry p (addressesAggregatedList w p) 0")
  have evs: "delete_calls evs = (if dry then [] else map (address_delete_call p) (unused_regional w p))"
    using addresses_loop_calls [of w dry p "addressesAggregatedList w p" 0] al
    by (simp add: unused_regional_def)
  show ?thesis
  proof (cases "completes (addressesAggregatedList w p)")
    case False
    then obtain e where "r = Inl e"
      using addresses_loop_fails [of "addressesAggregatedList w p" w dry p 0] al by auto
    with False al evs show ?thesis
      by (auto simp: releaseStaticIPs_def split: option.splits)
  next
    case True
    then obtain n where r: "r = Inr n"
      using addresses_loop_result [of "addressesAggregatedList w p" w dry p 0] al by auto
    obtain gevs c where gl: "global_addresses_loop w dry p (globalAddressesList w p) n = (gevs, c)"
      by (cases "global_addresses_loop w dry p (globalAddressesList w p) n")
    have gevs: "delete_calls gevs =
        (if dry then [] else map (global_address_delete_call p) (unused_global w p))"
      using global_addresses_loop_calls [of w dry p "globalAddressesList w p" n] gl
      by (simp add: unused_global_def)
    from True al r gl evs gevs show ?thesis
      by (auto simp: releaseStaticIPs_def split: option.splits)
  qed
qed

lemma deleteDisks_skips:
  assumes "newDisksClient w = None" "d \<in> set (listed (disksAggregatedList w p))"
    "disk_users d \<noteq> []"
  shows "Log ''  Skipping disk %s (attached to instances)'' [S (disk_name d)]
           \<in> set (fst (deleteDisks w dry p))"
proof -
  obtain evs r where dl: "disks_loop w dry p (disksAggregatedList w p) 0 = (evs, r)"
    by (cases "disks_loop w dry p (disksAggregatedList w p) 0")
  have "Log ''  Skipping disk %s (attached to instances)'' [S (disk_name d)] \<in> set evs"
    using disks_loop_skips [OF assms(2,3), of w dry p 0] dl by simp
  with assms(1) dl show ?thesis
    by (cases r) (simp_all add: deleteDisks_def)
qed

lemma releaseStaticIPs_skips_regional:
  assumes "newAddressesClient w = None" "a \<in> set (listed (addressesAggregatedList w p))"
    "addr_status a = ''IN_USE''"
  shows "Log ''  Skipping address %s (in use)'' [S (addr_name a)]
           \<in> set (fst (releaseStaticIPs w dry p))"
proof -
  obtain evs r where al: "addresses_loop w dry p (addressesAggregatedList w p) 0 = (evs, r)"
    by (cases "addresses_loop w dry p (addressesAggregatedList w p) 0")
  have "Log ''  Skipping address %s (in use)'' [S (addr_name a)] \<in> set evs"
    using addresses_loop_skips [OF assms(2,3), of w dry p 0] al by simp
  with assms(1) al show ?thesis
    by (cases r) (simp_all add: releaseStaticIPs_def)
qed

lemma releaseStaticIPs_global_part:
  assumes "newAddressesClient w = None" "completes (addressesAggregatedList w p)"
    "newGlobalAddressesClient w = None"
  shows "\<exists>evs gevs.
      global_addresses_loop w dry p (globalAddressesList w p)
        (int (length (unused_regional w p))) =
        (gevs, int (length (unused_regional w p)) + int (length (unused_global w p))) \<and>
      fst (releaseStaticIPs w dry p) =
        Log ''[%s] Checking static IP addresses...'' [S p] #
        Call (AddressesAggregatedList p) # evs @ Call (GlobalAddressesList p) # gevs @
        (if unused_regional w p = [] \<and> unused_global w p = []
         then [Log ''[%s] No unused static IPs found'' [S p]]
         else if dry
           then [Log ''[%s] Would release %d static IPs''
                   [S p, I (int (length (unused_regional w p)) + int (length (unused_global w p)))]]
           else [])"
proof -
  let ?n = "int (length (unused_regional w p))"
  obtain evs r where al: "addresses_loop w dry p (addressesAggregatedList w p) 0 = (evs, r)"
    by (cases "addresses_loop w dry p (addressesAggregatedList w p) 0")
  have r: "r = Inr ?n"
    using addresses_loop_result [OF assms(2), of w dry p 0] al
    by (simp add: unused_regional_def)
  obtain gevs c where gl: "global_addresses_loop w dry p (globalAddressesList w p) ?n = (gevs, c)"
    by (cases "global_addresses_loop w dry p (globalAddressesList w p) ?n")
  have c: "c = ?n + int (length (unused_global w p))"
    using global_addresses_loop_count [of w dry p "globalAddressesList w p" ?n] gl
    by (simp add: unused_global_def)
  have zero: "?n + int (length (unused_global w p)) = 0 \<longleftrightarrow>
      unused_regional w p = [] \<and> unused_global w p = []"
  proof -
    have "int a + int b = 0 \<longleftrightarrow> a = 0 \<and> b = 0" for a b :: nat
      by linarith
    from this [of "length (unused_regional w p)" "length (unused_global w p)"]
    show ?thesis
      by simp
  qed
  have "fst (releaseStaticIPs w dry p) =
        Log ''[%s] Checking static IP addresses...'' [S p] #
        Call (AddressesAggregatedList p) # evs @ Call (GlobalAddressesList p) # gevs @
        (if unused_regional w p = [] \<and> unused_global w p = []
         then [Log ''[%s] No unused static IPs found'' [S p]]
         else if dry
           then [Log ''[%s] Would release %d static IPs''
                   [S p, I (int (length (unused_regional w p)) + int (length (unused_global w p)))]]
           else [])"
    using assms(1,3) al r gl c zero by (simp add: releaseStaticIPs_def)
  with gl c show ?thesis
    by blast
qed

lemma releaseStaticIPs_skips_global:
  assumes "newAddressesClient w = None" "completes (addressesAggregatedList w p)"
    "newGlobalAddressesClient w = None" "a \<in> set (yielded (globalAddressesList w p))"
    "addr_status a = ''IN_USE''"
  shows "Log ''  Skipping global address %s (in use)'' [S (addr_name a)]
           \<in> set (fst (releaseStaticIPs w dry p))"
proof -
  obtain evs gevs where
    gl: "global_addresses_loop w dry p (globalAddressesList w p)
           (int (length (unused_regional w p))) =
         (gevs, int (length (unused_regional w p)) + int (length (unused_global w p)))" and
    t: "set gevs \<subseteq> set (fst (releaseStaticIPs w dry p))"
    using releaseStaticIPs_global_part [OF assms(1-3), of dry] by fastforce
  have "Log ''  Skipping global address %s (in use)'' [S (addr_name a)] \<in> set gevs"
    using global_addresses_loop_skips [OF assms(4,5), of w dry p] gl
    by (metis fst_conv)
  with t show ?thesis
    by blast
qed

lemma releaseStaticIPs_total:
  assumes "newAddressesClient w = None" "completes (addressesAggregatedList w p)"
    "newGlobalAddressesClient w = None"
  shows "last (fst (releaseStaticIPs w True p)) =
     (if unused_regional w p = [] \<and> unused_global w p = []
      then Log ''[%s] No unused static IPs found'' [S p]
      else Log ''[%s] Would release %d static IPs''
             [S p, I (int (length (unused_regional w p)) + int (length (unused_global w p)))])"
proof -
  obtain evs gevs where
    "fst (releaseStaticIPs w True p) =
        (Log ''[%s] Checking static IP addresses...'' [S p] #
         Call (AddressesAggregatedList p) # evs @ Call (GlobalAddressesList p) # gevs) @
        [if unused_regional w p = [] \<and> unused_global w p = []
         then Log ''[%s] No unused static IPs found'' [S p]
         else Log ''[%s] Would release %d static IPs''
                [S p, I (int (length (unused_regional w p)) + int (length (unused_global w p)))]]"
    using releaseStaticIPs_global_part [OF assms, of True] by fastforce
  then show ?thesis
    by (simp only: last_snoc)
qed

section \<open>The requests each cleaner can send\<close>

lemma interleavings_all:
  "t \<in> set (interleavings ts) \<Longrightarrow> (\<forall>e \<in> set t. P e) \<longleftrightarrow> (\<forall>g \<in> set ts. \<forall>e \<in> set g. P e)"
  using interleavings_set [of t ts] by auto

lemma log_failure_events: "e \<in> set (log_failure f p err) \<Longrightarrow> cleaner_event k dry p e"
  by (auto simp: log_failure_def split: option.splits)

lemma found_instances_events:
  "e \<in> set (fst (found_instances is)) \<Longrightarrow> cleaner_event VMs dry p e"
  by (induction "is" arbitrary: e) (auto simp: Let_def split: prod.splits)

lemma collect_instances_events:
  "e \<in> set (fst (collect_instances it acc)) \<Longrightarrow> cleaner_event VMs dry p e"
proof (induction it arbitrary: acc)
  case (Yield pair it)
  then show ?case
    using found_instances_events [of e "snd pair" dry p]
    by (auto split: prod.splits)
qed simp_all

lemma delete_instance_events:
  "e \<in> set (delete_instance w p inst) \<Longrightarrow> cleaner_event VMs False p e"
  by (auto simp: delete_instance_def delete_and_wait_def split: sum.splits option.splits)

lemma deleteVMInstances_events:
  assumes "(t, err) \<in> set (deleteVMInstances w dry p)" "e \<in> set t"
  shows "cleaner_event VMs dry p e"
proof (cases "newInstancesClient w")
  case (Some x)
  with assms show ?thesis
    by (auto simp: deleteVMInstances_def)
next
  case None
  obtain evs r where ci: "collect_instances (instancesAggregatedList w p) [] = (evs, r)"
    by (cases "collect_instances (instancesAggregatedList w p) []")
  have evs: "\<forall>e \<in> set evs. cleaner_event VMs dry p e"
    using collect_instances_events [of _ "instancesAggregatedList w p" "[]" dry p] ci by simp
  show ?thesis
  proof (cases r)
    case (Inl x)
    with assms None ci evs show ?thesis
      by (auto simp: deleteVMInstances_def)
  next
    case (Inr instances)
    show ?thesis
    proof (cases "instances = [] \<or> dry")
      case True
      with assms None ci evs Inr show ?thesis
        by (auto simp: deleteVMInstances_def Let_def split: if_splits)
    next
      case False
      with assms(1) None ci Inr obtain g where
        g: "g \<in> set (interleavings (map (delete_instance w p) instances))" and
        t: "t = (Log ''[%s] Checking VM instances...'' [S p] #
                 Call (InstancesAggregatedList p) # evs) @
                [Log ''[%s] Deleting %d VM instances in parallel...''
                   [S p, I (int (length instances))]] @
                g @ [Log ''[%s] All VM deletions complete'' [S p]]"
        by (auto simp: deleteVMInstances_def Let_def)
      have "\<forall>e \<in> set g. cleaner_event VMs False p e"
        using interleavings_all [OF g, of "cleaner_event VMs False p"] delete_instance_events
        by auto
      with t assms(2) evs False show ?thesis
        by auto
    qed
  qed
qed

lemma disks_of_pair_events:
  "e \<in> set (fst (disks_of_pair w dry p ds n)) \<Longrightarrow> cleaner_event Disks dry p e"
  by (induction ds arbitrary: n)
     (auto simp: Let_def delete_and_wait_def split: if_splits sum.splits option.splits)

lemma disks_loop_events:
  "e \<in> set (fst (disks_loop w dry p it n)) \<Longrightarrow> cleaner_event Disks dry p e"
proof (induction it arbitrary: n)
  case (Yield pair it)
  then show ?case
    using disks_of_pair_events [of e w dry p "snd pair" n]
    by (auto split: prod.splits)
qed simp_all

lemma deleteDisks_events:
  assumes "e \<in> set (fst (deleteDisks w dry p))"
  shows "cleaner_event Disks dry p e"
proof -
  obtain evs r where dl: "disks_loop w dry p (disksAggregatedList w p) 0 = (evs, r)"
    by (cases "disks_loop w dry p (disksAggregatedList w p) 0")
  have "\<forall>e \<in> set evs. cleaner_event Disks dry p e"
    using disks_loop_events [of _ w dry p "disksAggregatedList w p" 0] dl by simp
  with assms dl show ?thesis
    by (auto simp: deleteDisks_def split: option.splits sum.splits if_splits)
qed

lemma addresses_of_pair_events:
  "e \<in> set (fst (addresses_of_pair w dry p as n)) \<Longrightarrow> cleaner_event Addresses dry p e"
  by (induction as arbitrary: n)
     (auto simp: Let_def delete_and_wait_def split: if_splits sum.splits option.splits)

lemma addresses_loop_events:
  "e \<in> set (fst (addresses_loop w dry p it n)) \<Longrightarrow> cleaner_event Addresses dry p e"
proof (induction it arbitrary: n)
  case (Yield pair it)
  then show ?case
    using addresses_of_pair_events [of e w dry p "snd pair" n]
    by (auto split: prod.splits)
qed simp_all

lemma global_addresses_loop_events:
  "e \<in> set (fst (global_addresses_loop w dry p it n)) \<Longrightarrow> cleaner_event Addresses dry p e"
  by (induction it arbitrary: n)
     (auto simp: delete_and_wait_def split: if_splits sum.splits option.splits)

lemma releaseStaticIPs_events:
  assumes "e \<in> set (fst (releaseStaticIPs w dry p))"
  shows "cleaner_event Addresses dry p e"
proof -
  obtain evs r where al: "addresses_loop w dry p (addressesAggregatedList w p) 0 = (evs, r)"
    by (cases "addresses_loop w dry p (addressesAggregatedList w p) 0")
  have evs: "\<forall>e \<in> set evs. cleaner_event Addresses dry p e"
    using addresses_loop_events [of _ w dry p "addressesAggregatedList w p" 0] al by simp
  show ?thesis
  proof (cases r)
    case (Inl x)
    with assms al evs show ?thesis
      by (auto simp: releaseStaticIPs_def split: option.splits)
  next
    case (Inr n)
    obtain gevs c where gl: "global_addresses_loop w dry p (globalAddressesList w p) n = (gevs, c)"
      by (cases "global_addresses_loop w dry p (globalAddressesList w p) n")
    have "\<forall>e \<in> set gevs. cleaner_event Addresses dry p e"
      using global_addresses_loop_events [of _ w dry p "globalAddressesList w p" n] gl by simp
    with assms al evs Inr gl show ?thesis
      by (auto simp: releaseStaticIPs_def split: option.splits if_splits)
  qed
qed

lemma target_accounts_events:
  "e \<in> set (fst (target_accounts accounts)) \<Longrightarrow> cleaner_event Accounts dry p e"
  by (induction accounts arbitrary: e) (auto split: prod.splits if_splits)

lemma delete_account_events:
  "e \<in> set (delete_account w account) \<Longrightarrow> cleaner_event Accounts False p e"
  by (auto simp: delete_account_def split: option.splits)

lemma deleteServiceAccounts_events:
  assumes "(t, err) \<in> set (deleteServiceAccounts w dry p)" "e \<in> set t"
  shows "cleaner_event Accounts dry p e"
proof (cases "newIamService w")
  case (Some x)
  with assms show ?thesis
    by (auto simp: deleteServiceAccounts_def)
next
  case None
  show ?thesis
  proof (cases "serviceAccountsList w (''projects/'' @ p)")
    case (Inl x)
    with assms None show ?thesis
      by (auto simp: deleteServiceAccounts_def)
  next
    case (Inr accounts)
    obtain evs targets where ta: "target_accounts accounts = (evs, targets)"
      by (cases "target_accounts accounts")
    have evs: "\<forall>e \<in> set evs. cleaner_event Accounts dry p e"
      using target_accounts_events [of _ accounts dry p] ta by simp
    show ?thesis
    proof (cases "targets = [] \<or> dry")
      case True
      with assms None Inr ta evs show ?thesis
        by (auto simp: deleteServiceAccounts_def Let_def split: if_splits)
    next
      case False
      with assms(1) None Inr ta obtain g where
        g: "g \<in> set (interleavings (map (delete_account w) targets))" and
        t: "t = (Log ''[%s] Checking service accounts...'' [S p] #
                 Call (ServiceAccountsList (''projects/'' @ p)) # evs) @
                [Log ''[%s] Deleting %d service accounts in parallel...''
                   [S p, I (int (length targets))]] @
                g @ [Log ''[%s] All service account deletions complete'' [S p]]"
        by (auto simp: deleteServiceAccounts_def Let_def)
      have "\<forall>e \<in> set g. cleaner_event Accounts False p e"
        using interleavings_all [OF g, of "cleaner_event Accounts False p"] delete_account_events
        by auto
      with t assms(2) evs False show ?thesis
        by auto
    qed
  qed
qed

section \<open>The orchestrator and the driver: facts\<close>

lemma cleanupProject_iff:
  "t \<in> set (cleanupProject w dry p) \<longleftrightarrow>
     (\<exists>vm \<in> set (deleteVMInstances w dry p).
      \<exists>sa \<in> set (deleteServiceAccounts w dry p).
      \<exists>others \<in> set (interleavings
         [fst (deleteDisks w dry p) @
            log_failure ''Error deleting disks in %s: %v'' p (snd (deleteDisks w dry p)),
          fst (releaseStaticIPs w dry p) @
            log_failure ''Error releasing static IPs in %s: %v'' p
              (snd (releaseStaticIPs w dry p)),
          fst sa @ log_failure ''Error deleting service accounts in %s: %v'' p (snd sa)]).
        t = fst vm @ log_failure ''Error deleting VM instances in %s: %v'' p (snd vm) @
            others @ [bucket_note p])"
  by (auto simp: cleanupProject_def bucket_note_def)

lemma cleanupProject_sequential:
  assumes "vm \<in> set (deleteVMInstances w dry p)" "sa \<in> set (deleteServiceAccounts w dry p)"
  shows "fst vm @ log_failure ''Error deleting VM instances in %s: %v'' p (snd vm) @
         ((fst (deleteDisks w dry p) @
             log_failure ''Error deleting disks in %s: %v'' p (snd (deleteDisks w dry p))) @
          (fst (releaseStaticIPs w dry p) @
             log_failure ''Error releasing static IPs in %s: %v'' p
               (snd (releaseStaticIPs w dry p))) @
          (fst sa @ log_failure ''Error deleting service accounts in %s: %v'' p (snd sa))) @
         [bucket_note p]
         \<in> set (cleanupProject w dry p)"
proof -
  let ?threads = "[fst (deleteDisks w dry p) @
            log_failure ''Error deleting disks in %s: %v'' p (snd (deleteDisks w dry p)),
          fst (releaseStaticIPs w dry p) @
            log_failure ''Error releasing static IPs in %s: %v'' p
              (snd (releaseStaticIPs w dry p)),
          fst sa @ log_failure ''Error deleting service accounts in %s: %v'' p (snd sa)]"
  have "concat ?threads \<in> set (interleavings ?threads)"
    by (rule concat_in_interleavings)
  then show ?thesis
    unfolding cleanupProject_iff using assms by fastforce
qed

lemma deleteVMInstances_nonempty: "deleteVMInstances w dry p \<noteq> []"
  using interleavings_nonempty
  by (auto simp: deleteVMInstances_def Let_def split: option.splits prod.splits sum.splits)

lemma deleteServiceAccounts_nonempty: "deleteServiceAccounts w dry p \<noteq> []"
  using interleavings_nonempty
  by (auto simp: deleteServiceAccounts_def Let_def split: option.splits prod.splits sum.splits)

lemma cleanupProject_nonempty: "cleanupProject w dry p \<noteq> []"
proof -
  obtain vm sa where "vm \<in> set (deleteVMInstances w dry p)"
      "sa \<in> set (deleteServiceAccounts w dry p)"
    using deleteVMInstances_nonempty [of w dry p] deleteServiceAccounts_nonempty [of w dry p]
    by (meson last_in_set)
  from cleanupProject_sequential [OF this] show ?thesis
    by auto
qed

lemma cleanupProject_events:
  assumes "t \<in> set (cleanupProject w dry p)" "e \<in> set t"
  shows "e = bucket_note p \<or>
         cleaner_event VMs dry p e \<or> cleaner_event Disks dry p e \<or>
         cleaner_event Addresses dry p e \<or> cleaner_event Accounts dry p e"
proof -
  from assms(1) obtain vm sa others where
    vm: "vm \<in> set (deleteVMInstances w dry p)" and
    sa: "sa \<in> set (deleteServiceAccounts w dry p)" and
    others: "others \<in> set (interleavings
         [fst (deleteDisks w dry p) @
            log_failure ''Error deleting disks in %s: %v'' p (snd (deleteDisks w dry p)),
          fst (releaseStaticIPs w dry p) @
            log_failure ''Error releasing static IPs in %s: %v'' p
              (snd (releaseStaticIPs w dry p)),
          fst sa @ log_failure ''Error deleting service accounts in %s: %v'' p (snd sa)])" and
    t: "t = fst vm @ log_failure ''Error deleting VM instances in %s: %v'' p (snd vm) @
            others @ [bucket_note p]"
    unfolding cleanupProject_iff by blast
  have vm_ev: "cleaner_event VMs dry p e" if "e \<in> set (fst vm)"
    using deleteVMInstances_events [of "fst vm" "snd vm" w dry p e] vm that by simp
  have sa_ev: "cleaner_event Accounts dry p e" if "e \<in> set (fst sa)"
    using deleteServiceAccounts_events [of "fst sa" "snd sa" w dry p e] sa that by simp
  have "set others = set (fst (deleteDisks w dry p)) \<union>
      set (log_failure ''Error deleting disks in %s: %v'' p (snd (deleteDisks w dry p))) \<union>
      set (fst (releaseStaticIPs w dry p)) \<union>
      set (log_failure ''Error releasing static IPs in %s: %v'' p
             (snd (releaseStaticIPs w dry p))) \<union>
      set (fst sa) \<union>
      set (log_failure ''Error deleting service accounts in %s: %v'' p (snd sa))"
    using interleavings_set [OF others] by auto
  with assms(2) t vm_ev sa_ev show ?thesis
    using deleteDisks_events [of e w dry p] releaseStaticIPs_events [of e w dry p]
      log_failure_events [of e _ p _ VMs dry]
    by auto
qed

lemma process_projects_Cons_iff:
  "t \<in> set (process_projects w dry (p # rest)) \<longleftrightarrow>
     (\<exists>c \<in> set (cleanupProject w dry p). \<exists>ts \<in> set (process_projects w dry rest).
        t = Log (newline @ ''========== Processing Project: %s =========='') [S p] # c @ ts)"
  by auto

lemma process_projects_nonempty: "process_projects w dry ids \<noteq> []"
proof (induction ids)
  case Nil
  show ?case by simp
next
  case (Cons p rest)
  obtain c where c: "c \<in> set (cleanupProject w dry p)"
    using cleanupProject_nonempty [of w dry p] by (meson last_in_set)
  obtain ts where ts: "ts \<in> set (process_projects w dry rest)"
    using Cons by (meson last_in_set)
  from c ts have
    "Log (newline @ ''========== Processing Project: %s =========='') [S p] # c @ ts
       \<in> set (process_projects w dry (p # rest))"
    unfolding process_projects_Cons_iff by blast
  then show ?case
    by (metis empty_iff empty_set)
qed

declare process_projects.simps(2) [simp del]

lemma process_projects_events:
  assumes "t \<in> set (process_projects w dry ids)" "e \<in> set t"
  shows "(\<exists>f args. e = Log f args) \<or>
         (\<exists>p \<in> set ids. e = bucket_note p \<or>
            cleaner_event VMs dry p e \<or> cleaner_event Disks dry p e \<or>
            cleaner_event Addresses dry p e \<or> cleaner_event Accounts dry p e)"
  using assms
proof (induction ids arbitrary: t)
  case Nil
  then show ?case by simp
next
  case (Cons p rest)
  from Cons.prems(1) obtain c ts where
    c: "c \<in> set (cleanupProject w dry p)" and
    ts: "ts \<in> set (process_projects w dry rest)" and
    t: "t = Log (newline @ ''========== Processing Project: %s =========='') [S p] # c @ ts"
    unfolding process_projects_Cons_iff by blast
  from Cons.prems(2) t consider
      "e = Log (newline @ ''========== Processing Project: %s =========='') [S p]"
    | "e \<in> set c" | "e \<in> set ts"
    by auto
  then show ?case
  proof cases
    case 1
    then show ?thesis by blast
  next
    case 2
    then show ?thesis
      using cleanupProject_events [OF c] by auto
  next
    case 3
    then show ?thesis
      using Cons.IH [OF ts] by auto
  qed
qed

lemma main_iff:
  "t \<in> set (main w dry ids) \<longleftrightarrow>
     (\<exists>ts \<in> set (process_projects w dry ids).
        t = [Log ''Starting GCP cleanup script (Dry Run: %v)'' [B dry],
             Log ''Projects to clean: %v'' [Strs ids]] @
            ts @ [Log (newline @ ''========== Cleanup Complete =========='') []])"
  by (auto simp: main_def)

lemma main_nonempty: "main w dry ids \<noteq> []"
  by (simp add: main_def process_projects_nonempty)

lemma main_events:
  assumes "t \<in> set (main w dry ids)" "e \<in> set t"
  shows "(\<exists>f args. e = Log f args) \<or>
         (\<exists>p \<in> set ids. e = bucket_note p \<or>
            cleaner_event VMs dry p e \<or> cleaner_event Disks dry p e \<or>
            cleaner_event Addresses dry p e \<or> cleaner_event Accounts dry p e)"
proof -
  from assms(1) obtain ts where
    ts: "ts \<in> set (process_projects w dry ids)" and
    t: "t = [Log ''Starting GCP cleanup script (Dry Run: %v)'' [B dry],
             Log ''Projects to clean: %v'' [Strs ids]] @
            ts @ [Log (newline @ ''========== Cleanup Complete =========='') []]"
    unfolding main_iff by blast
  from assms(2) t consider "\<exists>f args. e = Log f args" | "e \<in> set ts"
    by auto
  then show ?thesis
    using process_projects_events [OF ts] by cases auto
qed

lemma main_single:
  assumes "c \<in> set (cleanupProject w dry p)"
  shows "[Log ''Starting GCP cleanup script (Dry Run: %v)'' [B dry],
          Log ''Projects to clean: %v'' [Strs [p]],
          Log (newline @ ''========== Processing Project: %s =========='') [S p]] @
         c @ [Log (newline @ ''========== Cleanup Complete =========='') []]
         \<in> set (main w dry [p])"
proof -
  have "Log (newline @ ''========== Processing Project: %s =========='') [S p] # c @ []
          \<in> set (process_projects w dry [p])"
    unfolding process_projects_Cons_iff using assms by simp
  then show ?thesis
    unfolding main_iff by fastforce
qed

lemma dry_cleaner_event_observation: "cleaner_event k True p e \<Longrightarrow> observation_only e"
proof (cases e)
  case (Call c)
  assume "cleaner_event k True p e"
  with Call show ?thesis
    by (cases c) auto
next
  case (Wait c)
  assume "cleaner_event k True p e"
  with Wait show ?thesis
    by (cases c) auto
qed simp_all

lemma cleaner_event_touches: "cleaner_event k dry p e \<Longrightarrow> touches k' e \<Longrightarrow> k' = k"
proof (cases e)
  case (Call c)
  assume "cleaner_event k dry p e" "touches k' e"
  with Call show ?thesis
    by (cases c) auto
next
  case (Wait c)
  assume "cleaner_event k dry p e" "touches k' e"
  with Wait show ?thesis
    by (cases c) auto
qed simp_all

lemma bucket_note_touches [simp]: "\<not> touches k (bucket_note p)"
  by (simp add: bucket_note_def)

lemma log_failure_touches: "e \<in> set (log_failure f p err) \<Longrightarrow> \<not> touches k e"
  by (auto simp: log_failure_def split: option.splits)

section \<open>Every run has the shape of a run\<close>

lemma sequential_run_Cons: "remark e \<Longrightarrow> sequential_run w accts es \<Longrightarrow> sequential_run w accts (e # es)"
  using sequential_run.append [OF sequential_run.remark, of e w accts es] by simp

lemma sequential_run_snoc: "sequential_run w accts es \<Longrightarrow> remark e \<Longrightarrow> sequential_run w accts (es @ [e])"
  using sequential_run.append [OF _ sequential_run.remark, of w accts es e] by simp

lemma sequential_run_remarks: "list_all remark es \<Longrightarrow> sequential_run w accts es"
  by (induction es) (auto intro: sequential_run.nil sequential_run_Cons)

lemma concurrent_run_append:
  "concurrent_run w accts xs \<Longrightarrow> concurrent_run w accts ys \<Longrightarrow> concurrent_run w accts (xs @ ys)"
  using concurrent_run.shuffle [of w accts xs ys "xs @ ys"] append_in_shuffles by blast

lemma sequential_run_concurrent: "sequential_run w accts t \<Longrightarrow> concurrent_run w accts t"
  by (induction rule: sequential_run.induct)
     (auto intro: concurrent_run.nil concurrent_run.remark concurrent_run.item
        concurrent_run_append)

lemma concurrent_run_Cons: "remark e \<Longrightarrow> concurrent_run w accts es \<Longrightarrow> concurrent_run w accts (e # es)"
  using concurrent_run_append [OF concurrent_run.remark, of e w accts es] by simp

lemma concurrent_run_interleavings:
  "\<forall>g \<in> set gs. concurrent_run w accts g \<Longrightarrow> t \<in> set (interleavings gs) \<Longrightarrow> concurrent_run w accts t"
proof (induction gs arbitrary: t)
  case Nil
  then show ?case
    by (simp add: interleavings.simps concurrent_run.nil)
next
  case (Cons g gs)
  from Cons.prems(2) obtain r where r: "r \<in> set (interleavings gs)" "t \<in> shuffles g r"
    unfolding interleavings_Cons_iff by blast
  have "concurrent_run w accts r"
    using Cons.IH [OF _ r(1)] Cons.prems(1) by simp
  then show ?case
    using concurrent_run.shuffle [of w accts g r t] Cons.prems(1) r(2) by simp
qed

lemma remark_log [simp]: "f \<notin> set success_formats \<Longrightarrow> remark (Log f args)"
  by simp

lemma log_failure_run: "f \<notin> set success_formats \<Longrightarrow> sequential_run w accts (log_failure f p err)"
  by (auto simp: log_failure_def intro: sequential_run.nil sequential_run.remark
        split: option.splits)

lemma disks_of_pair_run: "sequential_run w accts (fst (disks_of_pair w dry p ds n))"
proof (induction ds arbitrary: n)
  case Nil
  show ?case by (simp add: sequential_run.nil)
next
  case (Cons d ds)
  have found: "remark (Log ''  Found Disk: %s (zone: %s, size: %d GB)'' args)" for args
    by (simp add: success_formats_def)
  have skip: "remark (Log ''  Skipping disk %s (attached to instances)'' args)" for args
    by (simp add: success_formats_def)
  show ?case
    using Cons [of n] Cons [of "n + 1"] found skip
      sequential_run.item [OF item_block.disk, of w accts p "extractZoneFromURL (disk_zone d)" "disk_name d"]
    by (auto simp: Let_def intro!: sequential_run_Cons sequential_run.append)
qed

lemma disks_loop_run: "sequential_run w accts (fst (disks_loop w dry p it n))"
proof (induction it arbitrary: n)
  case (Yield pair it)
  show ?case
    using Yield [of "snd (disks_of_pair w dry p (snd pair) n)"]
      disks_of_pair_run [of w accts dry p "snd pair" n]
    by (auto split: prod.splits intro: sequential_run.append)
qed (simp_all add: sequential_run.nil)

lemma deleteDisks_run: "sequential_run w accts (fst (deleteDisks w dry p))"
proof -
  obtain evs r where dl: "disks_loop w dry p (disksAggregatedList w p) 0 = (evs, r)"
    by (cases "disks_loop w dry p (disksAggregatedList w p) 0")
  have evs: "sequential_run w accts evs"
    using disks_loop_run [of w accts dry p "disksAggregatedList w p" 0] dl by simp
  have logs: "remark (Log ''[%s] Checking disks...'' args)"
    "remark (Log ''[%s] No unattached disks found'' args)"
    "remark (Log ''[%s] Would delete %d disks'' args)" for args
    by (simp_all add: success_formats_def)
  have "remark (Call (DisksAggregatedList p))"
    by simp
  then show ?thesis
    using dl evs logs
    by (auto simp: deleteDisks_def split: option.splits sum.splits
          intro!: sequential_run_Cons sequential_run_snoc sequential_run.nil)
qed

lemma addresses_of_pair_run: "sequential_run w accts (fst (addresses_of_pair w dry p as n))"
proof (induction as arbitrary: n)
  case Nil
  show ?case by (simp add: sequential_run.nil)
next
  case (Cons a as)
  have found: "remark (Log ''  Found Static IP: %s (region: %s, address: %s, status: %s)'' args)"
    for args
    by (simp add: success_formats_def)
  have skip: "remark (Log ''  Skipping address %s (in use)'' args)" for args
    by (simp add: success_formats_def)
  show ?case
    using Cons [of n] Cons [of "n + 1"] found skip
      sequential_run.item [OF item_block.address, of w accts p "extractRegionFromURL (addr_region a)"
        "addr_name a"]
    by (auto simp: Let_def intro!: sequential_run_Cons sequential_run.append)
qed

lemma addresses_loop_run: "sequential_run w accts (fst (addresses_loop w dry p it n))"
proof (induction it arbitrary: n)
  case (Yield pair it)
  show ?case
    using Yield [of "snd (addresses_of_pair w dry p (snd pair) n)"]
      addresses_of_pair_run [of w accts dry p "snd pair" n]
    by (auto split: prod.splits intro: sequential_run.append)
qed (simp_all add: sequential_run.nil)

lemma global_addresses_loop_run: "sequential_run w accts (fst (global_addresses_loop w dry p it n))"
proof (induction it arbitrary: n)
  case Done
  show ?case by (simp add: sequential_run.nil)
next
  case (Failed e)
  show ?case
    by (simp add: sequential_run.remark success_formats_def)
next
  case (Yield a it)
  have found: "remark (Log ''  Found Global Static IP: %s (address: %s, status: %s)'' args)"
    for args
    by (simp add: success_formats_def)
  have skip: "remark (Log ''  Skipping global address %s (in use)'' args)" for args
    by (simp add: success_formats_def)
  show ?case
    using Yield [of n] Yield [of "n + 1"] found skip
      sequential_run.item [OF item_block.global_address, of w accts p "addr_name a"]
    by (auto intro!: sequential_run_Cons sequential_run.append)
qed

lemma releaseStaticIPs_run: "sequential_run w accts (fst (releaseStaticIPs w dry p))"
proof -
  obtain evs r where al: "addresses_loop w dry p (addressesAggregatedList w p) 0 = (evs, r)"
    by (cases "addresses_loop w dry p (addressesAggregatedList w p) 0")
  have evs: "sequential_run w accts evs"
    using addresses_loop_run [of w accts dry p "addressesAggregatedList w p" 0] al by simp
  have logs: "remark (Log ''[%s] Checking static IP addresses...'' args)"
    "remark (Log ''[%s] No unused static IPs found'' args)"
    "remark (Log ''[%s] Would release %d static IPs'' args)" for args
    by (simp_all add: success_formats_def)
  have calls: "remark (Call (AddressesAggregatedList p))" "remark (Call (GlobalAddressesList p))"
    by simp_all
  show ?thesis
  proof (cases r)
    case (Inl x)
    with al evs logs calls show ?thesis
      by (auto simp: releaseStaticIPs_def split: option.splits
            intro!: sequential_run_Cons sequential_run.nil)
  next
    case (Inr n)
    obtain gevs c where gl: "global_addresses_loop w dry p (globalAddressesList w p) n = (gevs, c)"
      by (cases "global_addresses_loop w dry p (globalAddressesList w p) n")
    have gevs: "sequential_run w accts gevs"
      using global_addresses_loop_run [of w accts dry p "globalAddressesList w p" n] gl by simp
    have tail: "sequential_run w accts (evs @ Call (GlobalAddressesList p) # gevs @ foot)"
      if "sequential_run w accts foot" for foot
      using evs gevs calls(2) that
      by (intro sequential_run.append sequential_run_Cons)
    have "sequential_run w accts (evs @ Call (GlobalAddressesList p) # gevs @
        (if c = 0 then [Log ''[%s] No unused static IPs found'' [S p]]
         else if dry then [Log ''[%s] Would release %d static IPs'' [S p, I c]] else []))"
      by (rule tail) (auto intro: sequential_run.nil sequential_run.remark logs)
    with al Inr gl evs logs calls show ?thesis
      by (auto simp: releaseStaticIPs_def split: option.splits
            intro!: sequential_run_Cons sequential_run.nil)
  qed
qed

lemma found_instances_run: "sequential_run w accts (fst (found_instances is))"
proof (induction "is")
  case Nil
  show ?case by (simp add: sequential_run.nil)
next
  case (Cons i "is")
  have "remark (Log ''  Found VM Instance: %s (zone: %s, status: %s)'' args)" for args
    by (simp add: success_formats_def)
  with Cons show ?case
    by (auto simp: Let_def split: prod.splits intro!: sequential_run_Cons)
qed

lemma collect_instances_run: "sequential_run w accts (fst (collect_instances it acc))"
proof (induction it arbitrary: acc)
  case (Yield pair it)
  show ?case
    using Yield [of "acc @ snd (found_instances (snd pair))"]
      found_instances_run [of w accts "snd pair"]
    by (auto split: prod.splits intro: sequential_run.append)
qed (simp_all add: sequential_run.nil)

lemma deleteVMInstances_run:
  assumes "(t, err) \<in> set (deleteVMInstances w dry p)"
  shows "concurrent_run w accts t"
proof -
  have logs: "remark (Log ''[%s] Checking VM instances...'' args)"
    "remark (Log ''[%s] No VM instances found'' args)"
    "remark (Log ''[%s] Would delete %d VM instances'' args)"
    "remark (Log ''[%s] Deleting %d VM instances in parallel...'' args)"
    "remark (Log ''[%s] All VM deletions complete'' args)" for args
    by (simp_all add: success_formats_def)
  have call: "remark (Call (InstancesAggregatedList p))"
    by simp
  show ?thesis
  proof (cases "newInstancesClient w")
    case (Some x)
    with assms logs show ?thesis
      by (auto simp: deleteVMInstances_def intro: concurrent_run.remark)
  next
    case None
    obtain evs r where ci: "collect_instances (instancesAggregatedList w p) [] = (evs, r)"
      by (cases "collect_instances (instancesAggregatedList w p) []")
    have evs: "concurrent_run w accts evs"
      using collect_instances_run [of w accts "instancesAggregatedList w p" "[]"] ci
        sequential_run_concurrent by fastforce
    have pre: "concurrent_run w accts
        (Log ''[%s] Checking VM instances...'' [S p] # Call (InstancesAggregatedList p) # evs)"
      using evs logs(1) call by (intro concurrent_run_Cons)
    show ?thesis
    proof (cases r)
      case (Inl x)
      with assms None ci pre show ?thesis
        by (auto simp: deleteVMInstances_def)
    next
      case (Inr instances)
      show ?thesis
      proof (cases "instances = [] \<or> dry")
        case True
        have "concurrent_run w accts
            ((Log ''[%s] Checking VM instances...'' [S p] # Call (InstancesAggregatedList p) # evs) @
             [e])" if "remark e" for e
          using pre that by (intro concurrent_run_append concurrent_run.remark)
        with True assms None ci Inr logs show ?thesis
          by (auto simp: deleteVMInstances_def Let_def split: if_splits)
      next
        case False
        with assms None ci Inr obtain g where
          g: "g \<in> set (interleavings (map (delete_instance w p) instances))" and
          t: "t = (Log ''[%s] Checking VM instances...'' [S p] #
                   Call (InstancesAggregatedList p) # evs) @
                  [Log ''[%s] Deleting %d VM instances in parallel...''
                     [S p, I (int (length instances))]] @
                  g @ [Log ''[%s] All VM deletions complete'' [S p]]"
          by (auto simp: deleteVMInstances_def Let_def)
        have "concurrent_run w accts g"
          using concurrent_run_interleavings [where w = w and accts = accts, OF _ g]
          by (auto intro: concurrent_run.item item_block.vm)
        then show ?thesis
          unfolding t using pre logs
          by (intro concurrent_run_append concurrent_run.remark)
      qed
    qed
  qed
qed

lemma target_accounts_run: "sequential_run w accts (fst (target_accounts accounts))"
proof (induction accounts)
  case Nil
  show ?case by (simp add: sequential_run.nil)
next
  case (Cons a accounts)
  have "remark (Log ''  Found Service Account: %s (%s)'' args)" for args
    by (simp add: success_formats_def)
  with Cons show ?case
    by (auto split: prod.splits intro!: sequential_run_Cons)
qed

lemma deleteServiceAccounts_run:
  assumes "(t, err) \<in> set (deleteServiceAccounts w dry p)"
    and listed: "set (listed_accounts w p) \<subseteq> set accts"
  shows "concurrent_run w accts t"
proof -
  have logs: "remark (Log ''[%s] Checking service accounts...'' args)"
    "remark (Log (''[%s] No service accounts found with prefix '' @
                  apostrophe @ ''vsa-sa-gcnv'' @ apostrophe) args)"
    "remark (Log ''[%s] Would delete %d service accounts'' args)"
    "remark (Log ''[%s] Deleting %d service accounts in parallel...'' args)"
    "remark (Log ''[%s] All service account deletions complete'' args)" for args
    by (simp_all add: success_formats_def)
  have call: "remark (Call (ServiceAccountsList (''projects/'' @ p)))"
    by simp
  show ?thesis
  proof (cases "newIamService w")
    case (Some x)
    with assms logs show ?thesis
      by (auto simp: deleteServiceAccounts_def intro: concurrent_run.remark)
  next
    case None
    show ?thesis
    proof (cases "serviceAccountsList w (''projects/'' @ p)")
      case (Inl x)
      have "concurrent_run w accts [Log ''[%s] Checking service accounts...'' [S p],
          Call (ServiceAccountsList (''projects/'' @ p))]"
        using logs(1) call by (intro concurrent_run_Cons concurrent_run.nil)
      with assms None Inl show ?thesis
        by (auto simp: deleteServiceAccounts_def)
    next
      case (Inr accounts)
      obtain evs targets where ta: "target_accounts accounts = (evs, targets)"
        by (cases "target_accounts accounts")
      have evs: "concurrent_run w accts evs"
        using target_accounts_run [of w accts accounts] ta sequential_run_concurrent by fastforce
      have pre: "concurrent_run w accts
          (Log ''[%s] Checking service accounts...'' [S p] #
           Call (ServiceAccountsList (''projects/'' @ p)) # evs)"
        using evs logs(1) call by (intro concurrent_run_Cons)
      show ?thesis
      proof (cases "targets = [] \<or> dry")
        case True
        have "concurrent_run w accts
            ((Log ''[%s] Checking service accounts...'' [S p] #
              Call (ServiceAccountsList (''projects/'' @ p)) # evs) @ [e])" if "remark e" for e
          using pre that by (intro concurrent_run_append concurrent_run.remark)
        with True assms None Inr ta logs show ?thesis
          by (auto simp: deleteServiceAccounts_def Let_def split: if_splits)
      next
        case False
        with assms None Inr ta obtain g where
          g: "g \<in> set (interleavings (map (delete_account w) targets))" and
          t: "t = (Log ''[%s] Checking service accounts...'' [S p] #
                   Call (ServiceAccountsList (''projects/'' @ p)) # evs) @
                  [Log ''[%s] Deleting %d service accounts in parallel...''
                     [S p, I (int (length targets))]] @
                  g @ [Log ''[%s] All service account deletions complete'' [S p]]"
          by (auto simp: deleteServiceAccounts_def Let_def)
        have "set targets \<subseteq> set accts"
          using snd_target_accounts [of accounts] ta listed Inr
          by (auto simp: listed_accounts_def)
        then have "concurrent_run w accts g"
          using concurrent_run_interleavings [where w = w and accts = accts, OF _ g]
          by (auto intro: concurrent_run.item item_block.account)
        then show ?thesis
          unfolding t using pre logs
          by (intro concurrent_run_append concurrent_run.remark)
      qed
    qed
  qed
qed

lemma cleanupProject_run:
  assumes "t \<in> set (cleanupProject w dry p)"
    and listed: "set (listed_accounts w p) \<subseteq> set accts"
  shows "concurrent_run w accts t"
proof -
  from assms obtain vm sa others where
    vm: "vm \<in> set (deleteVMInstances w dry p)" and
    sa: "sa \<in> set (deleteServiceAccounts w dry p)" and
    others: "others \<in> set (interleavings
         [fst (deleteDisks w dry p) @
            log_failure ''Error deleting disks in %s: %v'' p (snd (deleteDisks w dry p)),
          fst (releaseStaticIPs w dry p) @
            log_failure ''Error releasing static IPs in %s: %v'' p
              (snd (releaseStaticIPs w dry p)),
          fst sa @ log_failure ''Error deleting service accounts in %s: %v'' p (snd sa)])" and
    t: "t = fst vm @ log_failure ''Error deleting VM instances in %s: %v'' p (snd vm) @
            others @ [bucket_note p]"
    unfolding cleanupProject_iff by blast
  have formats: "''Error deleting VM instances in %s: %v'' \<notin> set success_formats"
    "''Error deleting disks in %s: %v'' \<notin> set success_formats"
    "''Error releasing static IPs in %s: %v'' \<notin> set success_formats"
    "''Error deleting service accounts in %s: %v'' \<notin> set success_formats"
    by (simp_all add: success_formats_def)
  have lf: "concurrent_run w accts (log_failure f p e)" if "f \<notin> set success_formats" for f e
    using log_failure_run [OF that] sequential_run_concurrent by blast
  have vm_run: "concurrent_run w accts (fst vm)"
    using deleteVMInstances_run [of "fst vm" "snd vm" w dry p] vm by simp
  have sa_run: "concurrent_run w accts (fst sa)"
    using deleteServiceAccounts_run [of "fst sa" "snd sa" w dry p accts] sa listed by simp
  have "concurrent_run w accts others"
    using concurrent_run_interleavings [where w = w and accts = accts, OF _ others] sa_run lf formats
      sequential_run_concurrent [OF deleteDisks_run [of w accts dry p]]
      sequential_run_concurrent [OF releaseStaticIPs_run [of w accts dry p]]
    by (auto intro: concurrent_run_append)
  moreover have "concurrent_run w accts [bucket_note p]"
    by (simp add: bucket_note_def concurrent_run.remark)
  ultimately show ?thesis
    unfolding t using vm_run lf [OF formats(1)]
    by (intro concurrent_run_append)
qed



section \<open>Concrete runs\<close>

lemma zone_z1: "extractZoneFromURL ''https://compute/v1/projects/proj/zones/z1'' = ''z1''"
  by (simp add: extractZoneFromURL_def strings_Split.simps)

lemma region_r1: "extractRegionFromURL ''https://compute/v1/projects/proj/regions/r1'' = ''r1''"
  by (simp add: extractRegionFromURL_def strings_Split.simps)

lemma automation_account_target: "is_target_account automation_account"
  by (simp add: is_target_account_def automation_account_def strings_Split.simps
        strings_HasPrefix_def)

lemma other_account_no_target: "\<not> is_target_account other_account"
  by (simp add: is_target_account_def other_account_def strings_Split.simps
        strings_HasPrefix_def)

lemma vm_and_disk_vm_run_mem:
  "(vm_and_disk_vm_run, None) \<in> set (deleteVMInstances vm_and_disk False ''proj'')"
  by (simp add: deleteVMInstances_def vm_and_disk_def quiet_def emit_def Let_def zone_z1
        interleavings.simps delete_instance_def delete_and_wait_def vm_and_disk_vm_run_def)

lemma vm_and_disk_orchestrated:
  "vm_and_disk_vm_run @ vm_and_disk_rest \<in> set (cleanupProject vm_and_disk False ''proj'')"
proof -
  have sa: "([Log ''[%s] Checking service accounts...'' [S ''proj''],
      Call (ServiceAccountsList ''projects/proj''),
      Log (''[%s] No service accounts found with prefix '' @
           apostrophe @ ''vsa-sa-gcnv'' @ apostrophe) [S ''proj'']], None)
     \<in> set (deleteServiceAccounts vm_and_disk False ''proj'')"
    by (simp add: deleteServiceAccounts_def vm_and_disk_def quiet_def)
  have disks: "deleteDisks vm_and_disk False ''proj'' =
     ([Log ''[%s] Checking disks...'' [S ''proj''],
       Call (DisksAggregatedList ''proj''),
       Log ''  Found Disk: %s (zone: %s, size: %d GB)'' [S ''spare'', S ''z1'', I 10],
       Call (DisksDelete ''proj'' ''z1'' ''spare''),
       Wait (DisksDelete ''proj'' ''z1'' ''spare''),
       Log (''  '' @ check_mark @ '' Deleted disk: %s'') [S ''spare'']], None)"
    by (simp add: deleteDisks_def vm_and_disk_def quiet_def emit_def Let_def zone_z1
          delete_and_wait_def)
  have ips: "releaseStaticIPs vm_and_disk False ''proj'' =
     ([Log ''[%s] Checking static IP addresses...'' [S ''proj''],
       Call (AddressesAggregatedList ''proj''),
       Call (GlobalAddressesList ''proj''),
       Log ''[%s] No unused static IPs found'' [S ''proj'']], None)"
    by (simp add: releaseStaticIPs_def vm_and_disk_def quiet_def emit_def)
  show ?thesis
    using cleanupProject_sequential [OF vm_and_disk_vm_run_mem sa]
    by (simp add: disks ips log_failure_def vm_and_disk_rest_def)
qed

lemma vm_and_disk_run_mem: "vm_and_disk_run \<in> set (main vm_and_disk False [''proj''])"
  using main_single [OF vm_and_disk_orchestrated] by (simp add: vm_and_disk_run_def)



section \<open>Sequential and overlapping deletions: facts\<close>

lemma strictly_sequential_append:
  "strictly_sequential w pending xs \<Longrightarrow> strictly_sequential w None ys \<Longrightarrow>
   strictly_sequential w pending (xs @ ys)"
proof (induction xs arbitrary: pending)
  case Nil
  then show ?case by simp
next
  case (Cons e xs)
  then show ?case
    by (cases e) (auto split: if_splits)
qed

lemma strictly_sequential_block: "item_block w accts b \<Longrightarrow> strictly_sequential w None b"
  by (induction rule: item_block.induct)
     (auto simp: delete_instance_def delete_and_wait_def delete_account_def
        split: sum.splits option.splits)

lemma strictly_sequential_remark: "remark e \<Longrightarrow> strictly_sequential w None [e]"
  by (cases e) auto

lemma strictly_sequential_run: "sequential_run w accts t \<Longrightarrow> strictly_sequential w None t"
proof (induction rule: sequential_run.induct)
  case nil
  show ?case by simp
next
  case (remark e)
  then show ?case by (rule strictly_sequential_remark)
next
  case (item b)
  then show ?case by (rule strictly_sequential_block)
next
  case (append xs ys)
  then show ?case by (simp add: strictly_sequential_append)
qed

lemma overlapping_Cons: "overlapping es \<Longrightarrow> overlapping (e # es)"
  by (cases es) auto

lemma overlapping_middle:
  "is_delete a \<Longrightarrow> is_delete b \<Longrightarrow> overlapping (pre @ a # b # post)"
  by (induction pre) (auto intro: overlapping_Cons)

lemma not_overlapping_append:
  "\<not> overlapping xs \<Longrightarrow> \<not> overlapping ys \<Longrightarrow> (xs \<noteq> [] \<Longrightarrow> \<not> is_delete (last xs)) \<Longrightarrow>
   \<not> overlapping (xs @ ys)"
proof (induction xs)
  case Nil
  then show ?case by simp
next
  case (Cons x xs)
  show ?case
  proof (cases xs)
    case Nil
    with Cons.prems show ?thesis
      by (cases ys) auto
  next
    case (Cons y zs)
    with Cons.prems Cons.IH show ?thesis
      by auto
  qed
qed

lemma tidy_block:
  "item_block w accts b \<Longrightarrow> \<not> overlapping b \<and> (b \<noteq> [] \<longrightarrow> \<not> is_delete (last b))"
  by (induction rule: item_block.induct)
     (auto simp: delete_instance_def delete_and_wait_def delete_account_def
        split: sum.splits option.splits)

lemma tidy_run:
  "sequential_run w accts t \<Longrightarrow> \<not> overlapping t \<and> (t \<noteq> [] \<longrightarrow> \<not> is_delete (last t))"
proof (induction rule: sequential_run.induct)
  case nil
  show ?case by simp
next
  case (remark e)
  then show ?case by (cases e) auto
next
  case (item b)
  then show ?case by (rule tidy_block)
next
  case (append xs ys)
  then show ?case
    using not_overlapping_append [of xs ys] by (auto simp: last_append)
qed

lemma front_interleaving:
  "x # y # xs @ ys @ concat gs \<in> set (interleavings ((x # xs) # (y # ys) # gs))"
proof -
  have "(y # ys) @ concat gs \<in> set (interleavings ((y # ys) # gs))"
    using concat_in_interleavings [of "(y # ys) # gs"] by simp
  moreover have "x # y # xs @ ys @ concat gs \<in> shuffles (x # xs) ((y # ys) @ concat gs)"
    using append_in_shuffles [of xs "ys @ concat gs"]
    by (simp add: Cons_in_shuffles_iff)
  ultimately show ?thesis
    unfolding interleavings_Cons_iff [of _ "x # xs"] by blast
qed

lemma snd_found_instances: "snd (found_instances is) = map info_of is"
  by (induction "is") (auto simp: Let_def info_of_def split: prod.splits)

lemma found_instances_no_calls [simp]: "delete_calls (fst (found_instances is)) = []"
  by (induction "is") (auto simp: Let_def split: prod.splits)

lemma collect_instances_no_calls [simp]: "delete_calls (fst (collect_instances it acc)) = []"
proof (induction it arbitrary: acc)
  case (Yield pair it)
  obtain evs infos where fi: "found_instances (snd pair) = (evs, infos)"
    by (cases "found_instances (snd pair)")
  then have "delete_calls evs = []"
    using found_instances_no_calls [of "snd pair"] by simp
  with fi Yield [of "acc @ infos"] show ?case
    by simp
qed simp_all

lemma collect_instances_completes:
  "completes it \<Longrightarrow> snd (collect_instances it acc) = Inr (acc @ map info_of (listed it))"
proof (induction it arbitrary: acc)
  case (Yield pair it)
  show ?case
    using Yield.prems Yield.IH [of "acc @ snd (found_instances (snd pair))"]
      snd_found_instances [of "snd pair"]
    by (auto split: prod.splits)
qed simp_all

lemma collect_instances_fails:
  "\<not> completes it \<Longrightarrow> isl (snd (collect_instances it acc))"
proof (induction it arbitrary: acc)
  case (Yield pair it)
  show ?case
    using Yield.prems Yield.IH [of "acc @ snd (found_instances (snd pair))"]
    by (auto split: prod.splits)
qed simp_all

lemma delete_instance_starts:
  "delete_instance w p x =
     Call (InstancesDelete p (info_zone x) (info_name x)) # tl (delete_instance w p x)"
  by (simp add: delete_instance_def delete_and_wait_def)

lemma delete_account_starts:
  "delete_account w a = Call (ServiceAccountsDelete (sa_name a)) # tl (delete_account w a)"
  by (simp add: delete_account_def)

lemma two_or_more: "2 \<le> length xs \<Longrightarrow> \<exists>x y rest. xs = x # y # rest"
  by (cases xs; cases "tl xs") auto

lemma deleteVMInstances_overlap:
  assumes "newInstancesClient w = None" "completes (instancesAggregatedList w p)"
    "2 \<le> length (listed (instancesAggregatedList w p))"
  shows "\<exists>r \<in> set (deleteVMInstances w False p). overlapping (fst r)"
proof -
  obtain evs r where ci: "collect_instances (instancesAggregatedList w p) [] = (evs, r)"
    by (cases "collect_instances (instancesAggregatedList w p) []")
  obtain i1 i2 rest where l: "listed (instancesAggregatedList w p) = i1 # i2 # rest"
    using two_or_more [OF assms(3)] by blast
  define x1 where "x1 = info_of i1"
  define x2 where "x2 = info_of i2"
  define gs where "gs = map (delete_instance w p) (map info_of rest)"
  have r: "r = Inr (x1 # x2 # map info_of rest)"
    using collect_instances_completes [OF assms(2), of "[]"] ci l
    by (simp add: x1_def x2_def)
  define c1 where "c1 = InstancesDelete p (info_zone x1) (info_name x1)"
  define c2 where "c2 = InstancesDelete p (info_zone x2) (info_name x2)"
  define g where "g = Call c1 # Call c2 #
      tl (delete_instance w p x1) @ tl (delete_instance w p x2) @ concat gs"
  have "g \<in> set (interleavings
      ((Call c1 # tl (delete_instance w p x1)) # (Call c2 # tl (delete_instance w p x2)) # gs))"
    unfolding g_def by (rule front_interleaving)
  then have g: "g \<in> set (interleavings (map (delete_instance w p) (x1 # x2 # map info_of rest)))"
    using delete_instance_starts [of w p x1] delete_instance_starts [of w p x2]
    by (simp add: c1_def c2_def gs_def)
  define t where "t = (Log ''[%s] Checking VM instances...'' [S p] #
      Call (InstancesAggregatedList p) # evs @
      [Log ''[%s] Deleting %d VM instances in parallel...''
         [S p, I (int (length (x1 # x2 # map info_of rest)))]]) @
      Call c1 # Call c2 #
      (tl (delete_instance w p x1) @ tl (delete_instance w p x2) @ concat gs) @
      [Log ''[%s] All VM deletions complete'' [S p]]"
  have "(t, None) \<in> set (deleteVMInstances w False p)"
    using assms(1) ci r g by (auto simp: deleteVMInstances_def Let_def t_def g_def)
  moreover have "overlapping t"
    unfolding t_def by (rule overlapping_middle) (simp_all add: c1_def c2_def)
  ultimately show ?thesis
    by force
qed

lemma deleteServiceAccounts_overlap:
  assumes "newIamService w = None" "serviceAccountsList w (''projects/'' @ p) = Inr accounts"
    "2 \<le> length (filter is_target_account accounts)"
  shows "\<exists>r \<in> set (deleteServiceAccounts w False p). overlapping (fst r)"
proof -
  obtain evs targets where ta: "target_accounts accounts = (evs, targets)"
    by (cases "target_accounts accounts")
  have "targets = filter is_target_account accounts"
    using snd_target_accounts [of accounts] ta by simp
  then obtain a1 a2 rest where targets: "targets = a1 # a2 # rest"
    using two_or_more [OF assms(3)] by auto
  define gs where "gs = map (delete_account w) rest"
  define c1 where "c1 = ServiceAccountsDelete (sa_name a1)"
  define c2 where "c2 = ServiceAccountsDelete (sa_name a2)"
  define g where "g = Call c1 # Call c2 #
      tl (delete_account w a1) @ tl (delete_account w a2) @ concat gs"
  have "g \<in> set (interleavings
      ((Call c1 # tl (delete_account w a1)) # (Call c2 # tl (delete_account w a2)) # gs))"
    unfolding g_def by (rule front_interleaving)
  then have g: "g \<in> set (interleavings (map (delete_account w) (a1 # a2 # rest)))"
    using delete_account_starts [of w a1] delete_account_starts [of w a2]
    by (simp add: c1_def c2_def gs_def)
  define t where "t = (Log ''[%s] Checking service accounts...'' [S p] #
      Call (ServiceAccountsList (''projects/'' @ p)) # evs @
      [Log ''[%s] Deleting %d service accounts in parallel...''
         [S p, I (int (length (a1 # a2 # rest)))]]) @
      Call c1 # Call c2 #
      (tl (delete_account w a1) @ tl (delete_account w a2) @ concat gs) @
      [Log ''[%s] All service account deletions complete'' [S p]]"
  have "(t, None) \<in> set (deleteServiceAccounts w False p)"
    using assms(1,2) ta targets g
    by (auto simp: deleteServiceAccounts_def Let_def t_def g_def)
  moreover have "overlapping t"
    unfolding t_def by (rule overlapping_middle) (simp_all add: c1_def c2_def)
  ultimately show ?thesis
    by force
qed

section \<open>Failures: facts\<close>

lemma delete_calls_instances:
  "delete_calls (concat (map (delete_instance w p) (map info_of is))) =
     map (instance_delete_call p) is"
  by (induction "is") (auto simp: delete_instance_def info_of_def instance_delete_call_def)

lemma deleteVMInstances_calls:
  assumes "(t, err) \<in> set (deleteVMInstances w dry p)"
  shows "mset (delete_calls t) =
     (if dry \<or> newInstancesClient w \<noteq> None \<or> \<not> completes (instancesAggregatedList w p)
      then {#}
      else mset (map (instance_delete_call p) (listed (instancesAggregatedList w p))))"
proof (cases "newInstancesClient w")
  case (Some x)
  with assms show ?thesis
    by (auto simp: deleteVMInstances_def)
next
  case None
  obtain evs r where ci: "collect_instances (instancesAggregatedList w p) [] = (evs, r)"
    by (cases "collect_instances (instancesAggregatedList w p) []")
  have evs: "delete_calls evs = []"
    using collect_instances_no_calls [of "instancesAggregatedList w p" "[]"] ci by simp
  show ?thesis
  proof (cases "completes (instancesAggregatedList w p)")
    case False
    then obtain e where "r = Inl e"
      using collect_instances_fails [of "instancesAggregatedList w p" "[]"] ci
      by (cases r) auto
    with assms None ci evs False show ?thesis
      by (auto simp: deleteVMInstances_def)
  next
    case True
    define instances where "instances = map info_of (listed (instancesAggregatedList w p))"
    have r: "r = Inr instances"
      using collect_instances_completes [OF True, of "[]"] ci by (simp add: instances_def)
    show ?thesis
    proof (cases "instances = [] \<or> dry")
      case True
      with assms None ci r evs \<open>completes (instancesAggregatedList w p)\<close> show ?thesis
        by (auto simp: deleteVMInstances_def Let_def instances_def split: if_splits)
    next
      case False
      with assms None ci r obtain g where
        g: "g \<in> set (interleavings (map (delete_instance w p) instances))" and
        t: "t = (Log ''[%s] Checking VM instances...'' [S p] #
                 Call (InstancesAggregatedList p) # evs) @
                [Log ''[%s] Deleting %d VM instances in parallel...''
                   [S p, I (int (length instances))]] @
                g @ [Log ''[%s] All VM deletions complete'' [S p]]"
        by (auto simp: deleteVMInstances_def Let_def)
      have "mset (delete_calls g) =
          mset (map (instance_delete_call p) (listed (instancesAggregatedList w p)))"
        using delete_calls_interleavings [OF g]
          delete_calls_instances [of w p "listed (instancesAggregatedList w p)"]
        by (simp add: instances_def)
      with t evs False None \<open>completes (instancesAggregatedList w p)\<close> show ?thesis
        by simp
    qed
  qed
qed

lemma delete_calls_log_failure [simp]: "delete_calls (log_failure f p err) = []"
  by (simp add: log_failure_def split: option.splits)

lemma cleanupProject_calls:
  assumes "c \<in> set (cleanupProject w False p)"
  shows "mset (delete_calls c) = mset (candidate_deletes w p)"
proof -
  from assms obtain vm sa others where
    vm: "vm \<in> set (deleteVMInstances w False p)" and
    sa: "sa \<in> set (deleteServiceAccounts w False p)" and
    others: "others \<in> set (interleavings
         [fst (deleteDisks w False p) @
            log_failure ''Error deleting disks in %s: %v'' p (snd (deleteDisks w False p)),
          fst (releaseStaticIPs w False p) @
            log_failure ''Error releasing static IPs in %s: %v'' p
              (snd (releaseStaticIPs w False p)),
          fst sa @ log_failure ''Error deleting service accounts in %s: %v'' p (snd sa)])" and
    c: "c = fst vm @ log_failure ''Error deleting VM instances in %s: %v'' p (snd vm) @
            others @ [bucket_note p]"
    unfolding cleanupProject_iff by blast
  have vm_calls: "mset (delete_calls (fst vm)) =
      mset (if newInstancesClient w = None \<and> completes (instancesAggregatedList w p)
            then map (instance_delete_call p) (listed (instancesAggregatedList w p)) else [])"
    using deleteVMInstances_calls [of "fst vm" "snd vm" w False p] vm by simp
  have sa_calls: "mset (delete_calls (fst sa)) =
      mset (if newIamService w = None
            then (case serviceAccountsList w (''projects/'' @ p) of
                    Inl e \<Rightarrow> []
                  | Inr accounts \<Rightarrow> map account_delete_call (filter is_target_account accounts))
            else [])"
    using deleteServiceAccounts_calls [of "fst sa" "snd sa" w False p] sa
    by (auto split: sum.splits)
  have "mset (delete_calls others) =
      mset (delete_calls (fst (deleteDisks w False p))) +
      mset (delete_calls (fst (releaseStaticIPs w False p))) +
      mset (delete_calls (fst sa))"
    using delete_calls_interleavings [OF others] by simp
  then show ?thesis
    unfolding c candidate_deletes_def
    using vm_calls sa_calls deleteDisks_calls [of w False p] releaseStaticIPs_calls [of w False p]
    by (simp add: bucket_note_def)
qed

lemma failure_line_not_mutating: "\<not> is_mutating c \<Longrightarrow> failure_line w c = None"
  by (cases c) auto

lemma failure_line_block:
  "item_block w accts b \<Longrightarrow> Call c \<in> set b \<Longrightarrow> failure_line w c = Some l \<Longrightarrow> l \<in> set b"
  by (induction rule: item_block.induct)
     (auto simp: delete_instance_def delete_and_wait_def delete_account_def
        split: sum.splits option.splits)

lemma failure_line_run:
  "concurrent_run w accts t \<Longrightarrow> Call c \<in> set t \<Longrightarrow> failure_line w c = Some l \<Longrightarrow> l \<in> set t"
proof (induction rule: concurrent_run.induct)
  case nil
  then show ?case by simp
next
  case (remark e)
  then show ?case
    using failure_line_not_mutating [of c w] by auto
next
  case (item b)
  then show ?case
    by (rule failure_line_block)
next
  case (shuffle xs ys t)
  then show ?case
    using set_shuffles [of t xs ys] by auto
qed

lemma deleteServiceAccounts_contains:
  assumes "(t, err) \<in> set (deleteServiceAccounts w False p)" "newIamService w = None"
    "serviceAccountsList w (''projects/'' @ p) = Inr accounts"
    "a \<in> set accounts" "is_target_account a"
  shows "set (delete_account w a) \<subseteq> set t"
proof -
  obtain evs targets where ta: "target_accounts accounts = (evs, targets)"
    by (cases "target_accounts accounts")
  have targets: "targets = filter is_target_account accounts"
    using snd_target_accounts [of accounts] ta by simp
  with assms(4,5) have a: "a \<in> set targets"
    by simp
  then have "targets \<noteq> []"
    by auto
  with assms(1-3) ta obtain g where
    g: "g \<in> set (interleavings (map (delete_account w) targets))" and
    t: "t = (Log ''[%s] Checking service accounts...'' [S p] #
             Call (ServiceAccountsList (''projects/'' @ p)) # evs) @
            [Log ''[%s] Deleting %d service accounts in parallel...''
               [S p, I (int (length targets))]] @
            g @ [Log ''[%s] All service account deletions complete'' [S p]]"
    by (auto simp: deleteServiceAccounts_def Let_def)
  have "set (delete_account w a) \<subseteq> set g"
    using interleavings_set [OF g] a by auto
  with t show ?thesis
    by auto
qed

lemma cleanupProject_account_failure:
  assumes "c \<in> set (cleanupProject w False p)" "newIamService w = None"
    "serviceAccountsList w (''projects/'' @ p) = Inr accounts"
    "a \<in> set accounts" "is_target_account a" "serviceAccountsDelete w (sa_name a) = Some e"
  shows "Log ''  ERROR deleting service account %s: %v'' [S (sa_email a), Err e] \<in> set c"
proof -
  from assms(1) obtain vm sa others where
    sa: "sa \<in> set (deleteServiceAccounts w False p)" and
    others: "others \<in> set (interleavings
         [fst (deleteDisks w False p) @
            log_failure ''Error deleting disks in %s: %v'' p (snd (deleteDisks w False p)),
          fst (releaseStaticIPs w False p) @
            log_failure ''Error releasing static IPs in %s: %v'' p
              (snd (releaseStaticIPs w False p)),
          fst sa @ log_failure ''Error deleting service accounts in %s: %v'' p (snd sa)])" and
    c: "c = fst vm @ log_failure ''Error deleting VM instances in %s: %v'' p (snd vm) @
            others @ [bucket_note p]"
    unfolding cleanupProject_iff by blast
  have "(fst sa, snd sa) \<in> set (deleteServiceAccounts w False p)"
    using sa by simp
  from deleteServiceAccounts_contains [OF this assms(2-5)]
  have "Log ''  ERROR deleting service account %s: %v'' [S (sa_email a), Err e] \<in> set (fst sa)"
    using assms(6) by (auto simp: delete_account_def)
  moreover have "set (fst sa) \<subseteq> set others"
    using interleavings_set [OF others] by auto
  ultimately show ?thesis
    unfolding c by auto
qed

lemma process_projects_structure:
  "t \<in> set (process_projects w dry ids) \<Longrightarrow>
   \<exists>cs. list_all2 (\<lambda>p c. c \<in> set (cleanupProject w dry p)) ids cs \<and>
        t = concat (map (\<lambda>(p, c).
              Log (newline @ ''========== Processing Project: %s =========='') [S p] # c)
              (zip ids cs))"
proof (induction ids arbitrary: t)
  case Nil
  then show ?case by simp
next
  case (Cons p rest)
  from Cons.prems obtain c ts where
    c: "c \<in> set (cleanupProject w dry p)" and
    ts: "ts \<in> set (process_projects w dry rest)" and
    t: "t = Log (newline @ ''========== Processing Project: %s =========='') [S p] # c @ ts"
    unfolding process_projects_Cons_iff by blast
  from Cons.IH [OF ts] obtain cs where
    cs: "list_all2 (\<lambda>p c. c \<in> set (cleanupProject w dry p)) rest cs" and
    ts_eq: "ts = concat (map (\<lambda>(p, c).
              Log (newline @ ''========== Processing Project: %s =========='') [S p] # c)
              (zip rest cs))"
    by blast
  have "list_all2 (\<lambda>p c. c \<in> set (cleanupProject w dry p)) (p # rest) (c # cs)"
    using c cs by simp
  moreover have "t = concat (map (\<lambda>(p, c).
              Log (newline @ ''========== Processing Project: %s =========='') [S p] # c)
              (zip (p # rest) (c # cs)))"
    using t ts_eq by simp
  ultimately show ?case
    by blast
qed

lemma main_structure:
  assumes "t \<in> set (main w dry ids)"
  shows "last t = Log (newline @ ''========== Cleanup Complete =========='') [] \<and>
     (\<exists>cs. list_all2 (\<lambda>p c. c \<in> set (cleanupProject w dry p)) ids cs \<and>
        t = [Log ''Starting GCP cleanup script (Dry Run: %v)'' [B dry],
             Log ''Projects to clean: %v'' [Strs ids]] @
            concat (map (\<lambda>(p, c).
              Log (newline @ ''========== Processing Project: %s =========='') [S p] # c)
              (zip ids cs)) @
            [Log (newline @ ''========== Cleanup Complete =========='') []])"
proof -
  from assms obtain ts where
    ts: "ts \<in> set (process_projects w dry ids)" and
    t: "t = [Log ''Starting GCP cleanup script (Dry Run: %v)'' [B dry],
             Log ''Projects to clean: %v'' [Strs ids]] @
            ts @ [Log (newline @ ''========== Cleanup Complete =========='') []]"
    unfolding main_iff by blast
  from process_projects_structure [OF ts] t show ?thesis
    by auto
qed

lemma main_pair:
  assumes "c1 \<in> set (cleanupProject w dry p1)" "c2 \<in> set (cleanupProject w dry p2)"
  shows "[Log ''Starting GCP cleanup script (Dry Run: %v)'' [B dry],
          Log ''Projects to clean: %v'' [Strs [p1, p2]]] @
         (Log (newline @ ''========== Processing Project: %s =========='') [S p1] # c1) @
         (Log (newline @ ''========== Processing Project: %s =========='') [S p2] # c2) @
         [Log (newline @ ''========== Cleanup Complete =========='') []]
         \<in> set (main w dry [p1, p2])"
proof -
  have "Log (newline @ ''========== Processing Project: %s =========='') [S p2] # c2 @ []
          \<in> set (process_projects w dry [p2])"
    unfolding process_projects_Cons_iff using assms(2) by simp
  then have "Log (newline @ ''========== Processing Project: %s =========='') [S p1] # c1 @
         (Log (newline @ ''========== Processing Project: %s =========='') [S p2] # c2 @ [])
          \<in> set (process_projects w dry [p1, p2])"
    unfolding process_projects_Cons_iff [of _ w dry p1] using assms(1) by blast
  then show ?thesis
    unfolding main_iff by fastforce
qed

lemma unreachable_project_mem:
  "unreachable_project p \<in> set (cleanupProject unreachable False p)"
proof -
  have vm: "([Log ''[%s] Checking VM instances...'' [S p]],
             Some ''failed to create instances client: no credentials'')
     \<in> set (deleteVMInstances unreachable False p)"
    by (simp add: deleteVMInstances_def unreachable_def quiet_def)
  have sa: "([Log ''[%s] Checking service accounts...'' [S p]],
             Some ''failed to create IAM service: no credentials'')
     \<in> set (deleteServiceAccounts unreachable False p)"
    by (simp add: deleteServiceAccounts_def unreachable_def quiet_def)
  have disks: "deleteDisks unreachable False p =
     ([Log ''[%s] Checking disks...'' [S p]],
      Some ''failed to create disks client: no credentials'')"
    by (simp add: deleteDisks_def unreachable_def quiet_def emit_def)
  have ips: "releaseStaticIPs unreachable False p =
     ([Log ''[%s] Checking static IP addresses...'' [S p]],
      Some ''failed to create addresses client: no credentials'')"
    by (simp add: releaseStaticIPs_def unreachable_def quiet_def emit_def)
  show ?thesis
    using cleanupProject_sequential [OF vm sa]
    by (simp add: disks ips log_failure_def unreachable_project_def)
qed

lemma unreachable_run_mem: "unreachable_run \<in> set (main unreachable False [''a'', ''b''])"
  using main_pair [OF unreachable_project_mem [of "''a''"] unreachable_project_mem [of "''b''"]]
  by (simp add: unreachable_run_def)

lemma stubborn_run_mem: "stubborn_run \<in> set (cleanupProject stubborn False ''proj'')"
proof -
  have vm: "([Log ''[%s] Checking VM instances...'' [S ''proj''],
      Call (InstancesAggregatedList ''proj''),
      Log ''[%s] No VM instances found'' [S ''proj'']], None)
     \<in> set (deleteVMInstances stubborn False ''proj'')"
    by (simp add: deleteVMInstances_def stubborn_def quiet_def)
  have sa: "([Log ''[%s] Checking service accounts...'' [S ''proj''],
      Call (ServiceAccountsList ''projects/proj''),
      Log ''  Found Service Account: %s (%s)'' [S ''vsa-sa-gcnv-123@proj.iam'', S ''automation''],
      Log ''[%s] Deleting %d service accounts in parallel...'' [S ''proj'', I 1],
      Call (ServiceAccountsDelete ''projects/proj/serviceAccounts/vsa-sa-gcnv-123@proj.iam''),
      Log ''  ERROR deleting service account %s: %v''
        [S ''vsa-sa-gcnv-123@proj.iam'', Err ''permission denied''],
      Log ''[%s] All service account deletions complete'' [S ''proj'']], None)
     \<in> set (deleteServiceAccounts stubborn False ''proj'')"
    using automation_account_target
    by (simp add: deleteServiceAccounts_def stubborn_def quiet_def Let_def
          interleavings.simps delete_account_def)
       (simp add: automation_account_def)
  have disks: "deleteDisks stubborn False ''proj'' =
     ([Log ''[%s] Checking disks...'' [S ''proj''],
       Call (DisksAggregatedList ''proj''),
       Log ''  Found Disk: %s (zone: %s, size: %d GB)'' [S ''first'', S ''z1'', I 10],
       Call (DisksDelete ''proj'' ''z1'' ''first''),
       Log ''  ERROR deleting disk %s: %v'' [S ''first'', Err ''resource busy''],
       Log ''  Found Disk: %s (zone: %s, size: %d GB)'' [S ''second'', S ''z1'', I 20],
       Call (DisksDelete ''proj'' ''z1'' ''second''),
       Wait (DisksDelete ''proj'' ''z1'' ''second''),
       Log (''  '' @ check_mark @ '' Deleted disk: %s'') [S ''second'']], None)"
    by (simp add: deleteDisks_def stubborn_def quiet_def emit_def Let_def zone_z1
          delete_and_wait_def)
  have ips: "releaseStaticIPs stubborn False ''proj'' =
     ([Log ''[%s] Checking static IP addresses...'' [S ''proj''],
       Call (AddressesAggregatedList ''proj''),
       Call (GlobalAddressesList ''proj''),
       Log ''[%s] No unused static IPs found'' [S ''proj'']], None)"
    by (simp add: releaseStaticIPs_def stubborn_def quiet_def emit_def)
  show ?thesis
    using cleanupProject_sequential [OF vm sa]
    by (simp add: disks ips log_failure_def stubborn_run_def)
qed

section \<open>Completion of a deletion: facts\<close>

lemma follows_tail: "follows (q # qs) es \<Longrightarrow> follows qs es"
proof (induction es arbitrary: q qs)
  case Nil
  then show ?case by simp
next
  case (Cons e es)
  show ?case
  proof (cases qs)
    case Nil
    then show ?thesis by simp
  next
    case (Cons q2 qs2)
    show ?thesis
    proof (cases "q e")
      case True
      with Cons.prems have "follows (q2 # qs2) es"
        by (simp add: Cons)
      then show ?thesis
        using Cons.IH [of q2 qs2] by (simp add: Cons)
    next
      case False
      with Cons.prems have "follows (q # q2 # qs2) es"
        by (simp add: Cons)
      from Cons.IH [OF this] have "follows (q2 # qs2) es" .
      then show ?thesis
        using Cons.IH [of q2 qs2] by (simp add: Cons)
    qed
  qed
qed

lemma follows_Cons: "follows qs es \<Longrightarrow> follows qs (e # es)"
  using follows_tail by (cases qs) auto

lemma follows_shuffles_left: "follows qs xs \<Longrightarrow> t \<in> shuffles xs ys \<Longrightarrow> follows qs t"
proof (induction t arbitrary: xs ys qs)
  case Nil
  then show ?case by simp
next
  case (Cons e t)
  from Cons.prems(2) consider
      xs' where "xs = e # xs'" "t \<in> shuffles xs' ys"
    | ys' where "ys = e # ys'" "t \<in> shuffles xs ys'"
    unfolding Cons_in_shuffles_iff by (cases xs; cases ys) auto
  then show ?case
  proof cases
    case 1
    show ?thesis
    proof (cases qs)
      case Nil
      then show ?thesis by simp
    next
      case (Cons q qs')
      show ?thesis
      proof (cases "q e")
        case True
        with Cons.prems(1) have "follows qs' xs'"
          by (simp add: Cons 1)
        from Cons.IH [OF this 1(2)] True show ?thesis
          by (simp add: Cons)
      next
        case False
        with Cons.prems(1) have "follows (q # qs') xs'"
          by (simp add: Cons 1)
        from Cons.IH [OF this 1(2)] False show ?thesis
          by (simp add: Cons)
      qed
    qed
  next
    case 2
    from Cons.IH [OF Cons.prems(1) 2(2)] show ?thesis
      by (rule follows_Cons)
  qed
qed

lemma follows_shuffles_right: "follows qs ys \<Longrightarrow> t \<in> shuffles xs ys \<Longrightarrow> follows qs t"
  using follows_shuffles_left [of qs ys t xs] by (simp add: shuffles_commutes)

lemma settled_Cons_iff:
  "settled w accts (e # es) =
     ((\<forall>c. e = Call c \<longrightarrow> follows (due w accts c) es) \<and> settled w accts es)"
  by (cases e) simp_all

lemma settled_shuffles:
  "settled w accts xs \<Longrightarrow> settled w accts ys \<Longrightarrow> t \<in> shuffles xs ys \<Longrightarrow> settled w accts t"
proof (induction t arbitrary: xs ys)
  case Nil
  show ?case by simp
next
  case (Cons e t)
  from Cons.prems(3) consider
      xs' where "xs = e # xs'" "t \<in> shuffles xs' ys"
    | ys' where "ys = e # ys'" "t \<in> shuffles xs ys'"
    unfolding Cons_in_shuffles_iff by (cases xs; cases ys) auto
  then show ?case
  proof cases
    case 1
    from Cons.prems(1) have due: "\<forall>c. e = Call c \<longrightarrow> follows (due w accts c) xs'"
      and rest: "settled w accts xs'"
      unfolding 1(1) settled_Cons_iff by simp_all
    from due have "\<forall>c. e = Call c \<longrightarrow> follows (due w accts c) t"
      using follows_shuffles_left [OF _ 1(2)] by blast
    with Cons.IH [OF rest Cons.prems(2) 1(2)] show ?thesis
      unfolding settled_Cons_iff by simp
  next
    case 2
    from Cons.prems(2) have due: "\<forall>c. e = Call c \<longrightarrow> follows (due w accts c) ys'"
      and rest: "settled w accts ys'"
      unfolding 2(1) settled_Cons_iff by simp_all
    from due have "\<forall>c. e = Call c \<longrightarrow> follows (due w accts c) t"
      using follows_shuffles_right [OF _ 2(2)] by blast
    with Cons.IH [OF Cons.prems(1) rest 2(2)] show ?thesis
      unfolding settled_Cons_iff by simp
  qed
qed

lemma settled_append:
  "settled w accts xs \<Longrightarrow> settled w accts ys \<Longrightarrow> settled w accts (xs @ ys)"
  using settled_shuffles [OF _ _ append_in_shuffles] .

lemma settled_no_calls: "\<forall>c. Call c \<notin> set es \<Longrightarrow> settled w accts es"
proof (induction es)
  case Nil
  show ?case by simp
next
  case (Cons e es)
  then show ?case
    unfolding settled_Cons_iff by auto
qed

lemma settled_delete_and_wait:
  assumes "has_operation c"
    and "accepted w c = (\<not> isl r)"
    and "outcome_line w c =
           Some (case r of Inl e \<Rightarrow> Log err_fmt [S nm, Err e]
                 | Inr (Some e) \<Rightarrow> Log wait_fmt [S nm, Err e]
                 | Inr None \<Rightarrow> Log ok_fmt [S nm])"
  shows "settled w accts (delete_and_wait c r nm err_fmt wait_fmt ok_fmt)"
proof -
  have due: "due w accts c =
      (if accepted w c then [\<lambda>e. e = Wait c] else []) @ [\<lambda>e. outcome_line w c = Some e]"
    using assms(1) by (cases c) simp_all
  show ?thesis
    using assms(2,3) unfolding delete_and_wait_def
    by (cases r) (auto simp: due split: option.splits)
qed

lemma settled_block: "item_block w accts b \<Longrightarrow> settled w accts b"
proof (induction rule: item_block.induct)
  case (vm p inst)
  show ?case
    unfolding delete_instance_def
    by (rule settled_delete_and_wait)
       (simp_all add: outcome_line_def split: sum.splits option.splits)
next
  case (disk p z n)
  show ?case
    by (rule settled_delete_and_wait)
       (simp_all add: outcome_line_def split: sum.splits option.splits)
next
  case (address p r n)
  show ?case
    by (rule settled_delete_and_wait)
       (simp_all add: outcome_line_def split: sum.splits option.splits)
next
  case (global_address p n)
  show ?case
    by (rule settled_delete_and_wait)
       (simp_all add: outcome_line_def split: sum.splits option.splits)
next
  case (account a)
  then show ?case
    by (auto simp: delete_account_def account_line_def list_ex_iff split: option.splits)
qed

lemma due_not_mutating: "\<not> is_mutating c \<Longrightarrow> due w accts c = []"
  by (cases c) simp_all

lemma settled_remark: "remark e \<Longrightarrow> settled w accts [e]"
  by (cases e) (simp_all add: due_not_mutating)

lemma settled_run: "concurrent_run w accts t \<Longrightarrow> settled w accts t"
proof (induction rule: concurrent_run.induct)
  case nil
  show ?case by simp
next
  case (remark e)
  then show ?case by (rule settled_remark)
next
  case (item b)
  then show ?case by (rule settled_block)
next
  case (shuffle xs ys t)
  then show ?case
    using settled_shuffles [of w accts xs ys t] by simp
qed

section \<open>Completion order: facts\<close>

lemma is_completed_wait_iff:
  "is_completed_wait w line e =
     (\<exists>c. e = Wait c \<and> success_line c = Some line \<and> failure_line w c = None)"
  by (cases e) simp_all

lemma enabled_mono:
  "enabled w accts seen e \<Longrightarrow> set seen \<subseteq> set seen' \<Longrightarrow> enabled w accts seen' e"
  by (cases e) (auto simp: list_ex_iff split: if_splits)

lemma completion_order_mono:
  "completion_order w accts seen t \<Longrightarrow> set seen \<subseteq> set seen' \<Longrightarrow>
   completion_order w accts seen' t"
proof (induction t arbitrary: seen seen')
  case Nil
  show ?case by simp
next
  case (Cons e t)
  have "set (e # seen) \<subseteq> set (e # seen')"
    using Cons.prems(2) by auto
  with Cons show ?case
    using enabled_mono [of w accts seen e seen'] by auto
qed







section \<open>As many success lines as successful deletions: facts\<close>

lemma delete_calls_filter:
  "delete_calls t = concat (map (\<lambda>e. case e of Call c \<Rightarrow> (if is_mutating c then [c] else []) | _ \<Rightarrow> []) t)"
  by (induction t rule: delete_calls.induct) simp_all







section \<open>The end of the VM cleaner: facts\<close>

lemma deleteVMInstances_closing:
  assumes "(t, err) \<in> set (deleteVMInstances w dry p)"
  shows "t \<noteq> [] \<and> (err = None \<longrightarrow> vm_closing p (last t))"
proof (cases "newInstancesClient w")
  case (Some x)
  with assms show ?thesis
    by (auto simp: deleteVMInstances_def)
next
  case None
  obtain evs r where ci: "collect_instances (instancesAggregatedList w p) [] = (evs, r)"
    by (cases "collect_instances (instancesAggregatedList w p) []")
  show ?thesis
  proof (cases r)
    case (Inl x)
    with assms None ci show ?thesis
      by (auto simp: deleteVMInstances_def)
  next
    case (Inr instances)
    show ?thesis
    proof (cases "instances = [] \<or> dry")
      case True
      with assms None ci Inr show ?thesis
        by (auto simp: deleteVMInstances_def Let_def split: if_splits)
    next
      case False
      with assms None ci Inr obtain g where
        "t = (Log ''[%s] Checking VM instances...'' [S p] #
                 Call (InstancesAggregatedList p) # evs) @
                [Log ''[%s] Deleting %d VM instances in parallel...''
                   [S p, I (int (length instances))]] @
                g @ [Log ''[%s] All VM deletions complete'' [S p]]"
        by (auto simp: deleteVMInstances_def Let_def)
      then show ?thesis
        by simp
    qed
  qed
qed

lemma vm_error_line_closing: "err \<noteq> None \<Longrightarrow> vm_closing p (last (t @ vm_error_line p err))"
  by (cases err) (simp_all add: vm_error_line_def)

lemma vm_error_line_log_failure:
  "log_failure ''Error deleting VM instances in %s: %v'' p err = vm_error_line p err"
  by (simp add: log_failure_def vm_error_line_def split: option.splits)

lemma vm_error_line_touches: "e \<in> set (vm_error_line p err) \<Longrightarrow> \<not> touches k e"
  by (cases err) (auto simp: vm_error_line_def)

lemma vm_error_line_no_calls: "Call c \<notin> set (vm_error_line p err)"
  by (cases err) (auto simp: vm_error_line_def)

section \<open>More concrete runs\<close>

lemma instance_and_disk_vm_run_mem:
  "(instance_and_disk_vm_run, None) \<in> set (deleteVMInstances instance_and_disk False ''proj'')"
  by (simp add: deleteVMInstances_def instance_and_disk_def quiet_def emit_def Let_def zone_z1
        interleavings.simps delete_instance_def delete_and_wait_def instance_and_disk_vm_run_def)

lemma spare_disk_rest:
  assumes "newDisksClient w = None" "newAddressesClient w = None"
    "newGlobalAddressesClient w = None" "newIamService w = None"
    "disksAggregatedList w ''proj'' = Yield (''zones/z1'',
         [\<lparr>disk_name = ''spare'', disk_zone = ''https://compute/v1/projects/proj/zones/z1'',
           disk_users = [], disk_sizeGb = 10\<rparr>]) Done"
    "disksDelete w ''proj'' ''z1'' ''spare'' = Inr None"
    "addressesAggregatedList w ''proj'' = Done" "globalAddressesList w ''proj'' = Done"
    "serviceAccountsList w ''projects/proj'' = Inr []"
    and vm: "vm \<in> set (deleteVMInstances w False ''proj'')"
  shows "fst vm @ vm_error_line ''proj'' (snd vm) @ vm_and_disk_rest
           \<in> set (cleanupProject w False ''proj'')"
proof -
  have sa: "([Log ''[%s] Checking service accounts...'' [S ''proj''],
      Call (ServiceAccountsList ''projects/proj''),
      Log (''[%s] No service accounts found with prefix '' @
           apostrophe @ ''vsa-sa-gcnv'' @ apostrophe) [S ''proj'']], None)
     \<in> set (deleteServiceAccounts w False ''proj'')"
    using assms(4,9) by (simp add: deleteServiceAccounts_def)
  have disks: "deleteDisks w False ''proj'' =
     ([Log ''[%s] Checking disks...'' [S ''proj''],
       Call (DisksAggregatedList ''proj''),
       Log ''  Found Disk: %s (zone: %s, size: %d GB)'' [S ''spare'', S ''z1'', I 10],
       Call (DisksDelete ''proj'' ''z1'' ''spare''),
       Wait (DisksDelete ''proj'' ''z1'' ''spare''),
       Log (''  '' @ check_mark @ '' Deleted disk: %s'') [S ''spare'']], None)"
    using assms(1,5,6) by (simp add: deleteDisks_def emit_def Let_def zone_z1 delete_and_wait_def)
  have ips: "releaseStaticIPs w False ''proj'' =
     ([Log ''[%s] Checking static IP addresses...'' [S ''proj''],
       Call (AddressesAggregatedList ''proj''),
       Call (GlobalAddressesList ''proj''),
       Log ''[%s] No unused static IPs found'' [S ''proj'']], None)"
    using assms(2,3,7,8) by (simp add: releaseStaticIPs_def emit_def)
  show ?thesis
    using cleanupProject_sequential [OF vm sa]
    by (simp add: disks ips vm_error_line_log_failure vm_and_disk_rest_def)
       (simp add: log_failure_def)
qed

lemma instance_and_disk_orchestrated:
  "instance_and_disk_vm_run @ vm_and_disk_rest
     \<in> set (cleanupProject instance_and_disk False ''proj'')"
  using spare_disk_rest [OF _ _ _ _ _ _ _ _ _ instance_and_disk_vm_run_mem]
  by (simp add: instance_and_disk_def quiet_def vm_error_line_def)


lemma unlisted_vm_run_mem:
  "(unlisted_vm_run, Some ''error listing instances: quota exceeded'')
     \<in> set (deleteVMInstances unlisted False ''proj'')"
  by (simp add: deleteVMInstances_def unlisted_def quiet_def unlisted_vm_run_def)

lemma unlisted_orchestrated:
  "unlisted_vm_run @ [unlisted_error_line] @ vm_and_disk_rest
     \<in> set (cleanupProject unlisted False ''proj'')"
  using spare_disk_rest [OF _ _ _ _ _ _ _ _ _ unlisted_vm_run_mem]
  by (simp add: unlisted_def quiet_def vm_error_line_def unlisted_error_line_def)

section \<open>Service accounts: which ones are deleted\<close>

text \<open>
  C5. The cleaner sends one list request for the service accounts of a project and reads
  the accounts of that one answer only (line 454; it never asks for a next page). Among
  these the candidates are the accounts whose local part starts with \<open>vsa-sa-gcnv\<close>
  (\<open>first_answer_candidates_by_prefix\<close>), so an account without the prefix is never
  deleted. An account with the prefix that the listing holds on a later page is not a
  candidate, though: in the project \<open>paged\<close> the automation account is an account of the
  project, its local part starts with the prefix, and the one live run of the cleaner
  finds no account to delete and sends no delete request.
\<close>

theorem account_on_later_page_is_no_candidate:
  "project_accounts paged ''proj'' = [other_account, automation_account] \<and>
   strings_HasPrefix (local_part (sa_email automation_account)) ''vsa-sa-gcnv'' \<and>
   deleteServiceAccounts paged False ''proj'' =
     [([Log ''[%s] Checking service accounts...'' [S ''proj''],
        Call (ServiceAccountsList ''projects/proj''),
        Log (''[%s] No service accounts found with prefix '' @
             apostrophe @ ''vsa-sa-gcnv'' @ apostrophe) [S ''proj'']], None)]"
proof -
  have accounts: "project_accounts paged ''proj'' = [other_account, automation_account]"
    by (simp add: project_accounts_def paged_def quiet_def)
  have prefix: "strings_HasPrefix (local_part (sa_email automation_account)) ''vsa-sa-gcnv''"
    by (simp add: strings_HasPrefix_def local_part_def automation_account_def)
  have "target_accounts [other_account] = ([], [])"
    using other_account_no_target by (simp add: Let_def)
  then have run: "deleteServiceAccounts paged False ''proj'' =
     [([Log ''[%s] Checking service accounts...'' [S ''proj''],
        Call (ServiceAccountsList ''projects/proj''),
        Log (''[%s] No service accounts found with prefix '' @
             apostrophe @ ''vsa-sa-gcnv'' @ apostrophe) [S ''proj'']], None)]"
    by (simp add: deleteServiceAccounts_def paged_def quiet_def)
  show ?thesis
    by (intro conjI accounts prefix run)
qed

text \<open>
  C10. Splitting at "@" always yields a first element, so the filter is defined on every
  email string; for an email without "@" the split is the email itself, and the account
  is a candidate exactly when the whole email starts with \<open>vsa-sa-gcnv\<close>.
\<close>

theorem email_without_at_is_tested_whole:
  "strings_Split (sa_email sa) (CHR ''@'') \<noteq> [] \<and>
   (CHR ''@'' \<notin> set (sa_email sa) \<longrightarrow>
      strings_Split (sa_email sa) (CHR ''@'') = [sa_email sa] \<and>
      (is_target_account sa \<longleftrightarrow> strings_HasPrefix (sa_email sa) ''vsa-sa-gcnv''))"
proof -
  have "strings_Split (sa_email sa) (CHR ''@'') \<noteq> []"
    using strings_Split_first [of "sa_email sa" "CHR ''@''"] by auto
  moreover have "is_target_account sa \<longleftrightarrow> strings_HasPrefix (sa_email sa) ''vsa-sa-gcnv''"
    if "CHR ''@'' \<notin> set (sa_email sa)"
    using that by (simp add: is_target_account_def strings_Split_no_sep)
  ultimately show ?thesis
    by (simp add: strings_Split_no_sep)
qed

theorem email_without_at_is_tested_whole_witness:
  "CHR ''@'' \<notin> set ''vsa-sa-gcnv-noat'' \<and>
   is_target_account \<lparr>sa_name = ''n'', sa_email = ''vsa-sa-gcnv-noat'', sa_displayName = ''d''\<rparr> \<and>
   CHR ''@'' \<notin> set '''' \<and>
   strings_Split '''' (CHR ''@'') = [''''] \<and>
   \<not> is_target_account \<lparr>sa_name = ''n'', sa_email = '''', sa_displayName = ''d''\<rparr>"
  using email_without_at_is_tested_whole
          [of "\<lparr>sa_name = ''n'', sa_email = ''vsa-sa-gcnv-noat'', sa_displayName = ''d''\<rparr>"]
        email_without_at_is_tested_whole
          [of "\<lparr>sa_name = ''n'', sa_email = '''', sa_displayName = ''d''\<rparr>"]
  by (simp add: strings_HasPrefix_def)

section \<open>Disks and addresses: which ones are candidates\<close>

text \<open>
  C3. A disk with one or more attachment references (users) is never a delete candidate,
  whatever its size and location: the delete requests of the disk cleaner are exactly
  those for the enumerated disks with no users, the counter counts exactly those disks,
  and each enumerated disk with users is logged as skipped.
\<close>

theorem attached_disk_is_never_a_candidate:
  "delete_calls (fst (deleteDisks w dry p)) =
     (if dry \<or> newDisksClient w \<noteq> None then []
      else map (disk_delete_call p)
             (filter (\<lambda>d. disk_users d = []) (listed (disksAggregatedList w p)))) \<and>
   (\<forall>diskCount. snd (disks_loop w dry p (disksAggregatedList w p) 0) = Inr diskCount \<longrightarrow>
      diskCount =
        int (length (filter (\<lambda>d. disk_users d = []) (listed (disksAggregatedList w p))))) \<and>
   (\<forall>d \<in> set (listed (disksAggregatedList w p)).
      newDisksClient w = None \<and> disk_users d \<noteq> [] \<longrightarrow>
      Log ''  Skipping disk %s (attached to instances)'' [S (disk_name d)]
        \<in> set (fst (deleteDisks w dry p)))"
  using deleteDisks_calls [of w dry p]
    disks_loop_count [of w dry p "disksAggregatedList w p" 0]
    deleteDisks_skips [of w _ p dry]
  by auto

theorem attached_disk_is_never_a_candidate_witness:
  "listed (disksAggregatedList two_disks ''proj'') =
     [\<lparr>disk_name = ''boot'', disk_zone = ''https://compute/v1/projects/proj/zones/z1'',
       disk_users = [''https://compute/v1/projects/proj/zones/z1/instances/vm1''],
       disk_sizeGb = 500\<rparr>,
      \<lparr>disk_name = ''spare'', disk_zone = ''https://compute/v1/projects/proj/zones/z1'',
       disk_users = [], disk_sizeGb = 10\<rparr>] \<and>
   delete_calls (fst (deleteDisks two_disks False ''proj'')) =
     [DisksDelete ''proj'' ''z1'' ''spare''] \<and>
   snd (disks_loop two_disks False ''proj'' (disksAggregatedList two_disks ''proj'') 0) = Inr 1 \<and>
   Log ''  Skipping disk %s (attached to instances)'' [S ''boot'']
     \<in> set (fst (deleteDisks two_disks False ''proj''))"
proof -
  have zone: "extractZoneFromURL ''https://compute/v1/projects/proj/zones/z1'' = ''z1''"
    by (simp add: extractZoneFromURL_def strings_Split.simps)
  have count: "snd (disks_loop two_disks False ''proj'' (disksAggregatedList two_disks ''proj'') 0) = Inr 1"
    by (simp add: two_disks_def quiet_def zone emit_def Let_def)
  show ?thesis
    using attached_disk_is_never_a_candidate [of two_disks False "''proj''"] count
    by (simp add: two_disks_def quiet_def disk_delete_call_def zone)
qed

text \<open>
  C4. A static address whose status equals \<open>IN_USE\<close>, regional or global, is never a
  release candidate: the delete requests of the address cleaner are exactly those for
  the enumerated addresses of another status (the global ones being reached when the
  regional listing ended without an error and the global client was created), each
  enumerated address in use is logged as skipped, and the total reported by a dry run is
  the number of regional candidates plus the number of global candidates.
\<close>

theorem in_use_address_is_never_a_candidate:
  "delete_calls (fst (releaseStaticIPs w dry p)) =
     (if dry \<or> newAddressesClient w \<noteq> None then []
      else map (address_delete_call p) (unused_regional w p) @
           (if completes (addressesAggregatedList w p) \<and> newGlobalAddressesClient w = None
            then map (global_address_delete_call p) (unused_global w p) else [])) \<and>
   (\<forall>a \<in> set (listed (addressesAggregatedList w p)).
      newAddressesClient w = None \<and> addr_status a = ''IN_USE'' \<longrightarrow>
      Log ''  Skipping address %s (in use)'' [S (addr_name a)]
        \<in> set (fst (releaseStaticIPs w dry p))) \<and>
   (newAddressesClient w = None \<and> completes (addressesAggregatedList w p) \<and>
    newGlobalAddressesClient w = None \<longrightarrow>
      (\<forall>a \<in> set (yielded (globalAddressesList w p)).
         addr_status a = ''IN_USE'' \<longrightarrow>
         Log ''  Skipping global address %s (in use)'' [S (addr_name a)]
           \<in> set (fst (releaseStaticIPs w dry p))) \<and>
      last (fst (releaseStaticIPs w True p)) =
        (if unused_regional w p = [] \<and> unused_global w p = []
         then Log ''[%s] No unused static IPs found'' [S p]
         else Log ''[%s] Would release %d static IPs''
                [S p, I (int (length (unused_regional w p)) + int (length (unused_global w p)))]))"
  using releaseStaticIPs_calls [of w dry p]
    releaseStaticIPs_skips_regional [of w _ p dry]
    releaseStaticIPs_skips_global [of w p _ dry]
    releaseStaticIPs_total [of w p]
  by auto

theorem in_use_address_is_never_a_candidate_witness:
  "map addr_name (listed (addressesAggregatedList four_addresses ''proj'')) = [''lb'', ''old''] \<and>
   map addr_name (yielded (globalAddressesList four_addresses ''proj'')) = [''front'', ''unused''] \<and>
   delete_calls (fst (releaseStaticIPs four_addresses False ''proj'')) =
     [AddressesDelete ''proj'' ''r1'' ''old'', GlobalAddressesDelete ''proj'' ''unused''] \<and>
   Log ''  Skipping address %s (in use)'' [S ''lb'']
     \<in> set (fst (releaseStaticIPs four_addresses False ''proj'')) \<and>
   Log ''  Skipping global address %s (in use)'' [S ''front'']
     \<in> set (fst (releaseStaticIPs four_addresses False ''proj'')) \<and>
   last (fst (releaseStaticIPs four_addresses True ''proj'')) =
     Log ''[%s] Would release %d static IPs'' [S ''proj'', I 2]"
proof -
  have region: "extractRegionFromURL ''https://compute/v1/projects/proj/regions/r1'' = ''r1''"
    by (simp add: extractRegionFromURL_def strings_Split.simps)
  show ?thesis
    using in_use_address_is_never_a_candidate [of four_addresses False "''proj''"]
    by (simp add: four_addresses_def quiet_def unused_regional_def unused_global_def
          address_delete_call_def global_address_delete_call_def region)
qed

section \<open>Dry run\<close>

text \<open>
  C1. With the dry-run flag set, whatever the provider holds and whatever the project
  list is, no run of the driver sends a mutating (delete or release) request: every
  event of every trace is a log line, a printed line or a listing request, and the
  driver does have a trace.
\<close>

theorem dry_run_issues_no_mutating_call:
  "main w True ids \<noteq> [] \<and>
   (\<forall>t \<in> set (main w True ids). list_all observation_only t \<and> delete_calls t = [])"
proof -
  have "observation_only e" if "t \<in> set (main w True ids)" "e \<in> set t" for t e
    using main_events [OF that] dry_cleaner_event_observation [of _ _ e]
    by (auto simp: bucket_note_def)
  then have "list_all observation_only t" if "t \<in> set (main w True ids)" for t
    using that by (simp add: list_all_iff)
  then show ?thesis
    using main_nonempty [of w True ids] list_all_observation_imp_no_delete by blast
qed

theorem dry_run_issues_no_mutating_call_witness:
  "dry_run_trace \<in> set (main scenario True [''proj'']) \<and>
   list_all observation_only dry_run_trace \<and> delete_calls dry_run_trace = []"
proof -
  have zone: "extractZoneFromURL ''https://compute/v1/projects/proj/zones/z1'' = ''z1''"
    by (simp add: extractZoneFromURL_def strings_Split.simps)
  have region: "extractRegionFromURL ''https://compute/v1/projects/proj/regions/r1'' = ''r1''"
    by (simp add: extractRegionFromURL_def strings_Split.simps)
  have target: "is_target_account automation_account"
    by (simp add: is_target_account_def automation_account_def strings_Split.simps
          strings_HasPrefix_def)
  have vm: "([Log ''[%s] Checking VM instances...'' [S ''proj''],
      Call (InstancesAggregatedList ''proj''),
      Log ''  Found VM Instance: %s (zone: %s, status: %s)'' [S ''vm1'', S ''z1'', S ''RUNNING''],
      Log ''  Found VM Instance: %s (zone: %s, status: %s)''
        [S ''vm2'', S ''z1'', S ''TERMINATED''],
      Log ''[%s] Would delete %d VM instances'' [S ''proj'', I 2]], None)
     \<in> set (deleteVMInstances scenario True ''proj'')"
    by (simp add: deleteVMInstances_def scenario_def quiet_def emit_def Let_def zone)
  have sa: "([Log ''[%s] Checking service accounts...'' [S ''proj''],
      Call (ServiceAccountsList ''projects/proj''),
      Log ''  Found Service Account: %s (%s)'' [S ''vsa-sa-gcnv-123@proj.iam'', S ''automation''],
      Log ''[%s] Would delete %d service accounts'' [S ''proj'', I 1]], None)
     \<in> set (deleteServiceAccounts scenario True ''proj'')"
    using target
    by (simp add: deleteServiceAccounts_def scenario_def quiet_def Let_def)
       (simp add: automation_account_def)
  have disks: "deleteDisks scenario True ''proj'' =
     ([Log ''[%s] Checking disks...'' [S ''proj''],
       Call (DisksAggregatedList ''proj''),
       Log ''  Found Disk: %s (zone: %s, size: %d GB)'' [S ''spare'', S ''z1'', I 10],
       Log ''[%s] Would delete %d disks'' [S ''proj'', I 1]], None)"
    by (simp add: deleteDisks_def scenario_def quiet_def emit_def Let_def zone)
  have ips: "releaseStaticIPs scenario True ''proj'' =
     ([Log ''[%s] Checking static IP addresses...'' [S ''proj''],
       Call (AddressesAggregatedList ''proj''),
       Log ''  Found Static IP: %s (region: %s, address: %s, status: %s)''
         [S ''old'', S ''r1'', S ''10.0.0.2'', S ''RESERVED''],
       Call (GlobalAddressesList ''proj''),
       Log ''  Skipping global address %s (in use)'' [S ''front''],
       Log ''[%s] Would release %d static IPs'' [S ''proj'', I 1]], None)"
    by (simp add: releaseStaticIPs_def scenario_def quiet_def emit_def Let_def region)
  have run: "dry_run_trace \<in> set (main scenario True [''proj''])"
    using main_single [OF cleanupProject_sequential [OF vm sa]]
    by (simp add: disks ips log_failure_def dry_run_trace_def)
  with dry_run_issues_no_mutating_call [of scenario "[''proj'']"] show ?thesis
    by blast
qed

section \<open>Buckets\<close>

text \<open>
  C2. For every project and both values of the dry-run flag, no run of the orchestrator
  (and so no run of the driver) sends a request about buckets or objects: no bucket
  listing, no object listing, no object deletion, no bucket deletion. Every run of the
  orchestrator ends with the note that buckets must be deleted manually.
\<close>

theorem orchestrator_never_touches_buckets:
  "cleanupProject w dry p \<noteq> [] \<and>
   (\<forall>t \<in> set (cleanupProject w dry p).
      (\<forall>e \<in> set t. \<not> touches Buckets e) \<and> last t = bucket_note p) \<and>
   (\<forall>t \<in> set (main w dry ids). \<forall>e \<in> set t. \<not> touches Buckets e)"
proof -
  have "\<not> touches Buckets e" if "t \<in> set (cleanupProject w dry p)" "e \<in> set t" for t e
    using cleanupProject_events [OF that] cleaner_event_touches [of _ dry p e Buckets]
    by auto
  moreover have "last t = bucket_note p" if "t \<in> set (cleanupProject w dry p)" for t
    using that unfolding cleanupProject_iff by auto
  moreover have "\<not> touches Buckets e" if "t \<in> set (main w dry ids)" "e \<in> set t" for t e
    using main_events [OF that] cleaner_event_touches [of _ dry _ e Buckets]
    by auto
  ultimately show ?thesis
    using cleanupProject_nonempty [of w dry p] by blast
qed

theorem orchestrator_never_touches_buckets_witness:
  "one_bucket_trace \<in> set (cleanupProject one_bucket False ''proj'') \<and>
   list_all (\<lambda>e. \<not> touches Buckets e) one_bucket_trace \<and>
   last one_bucket_trace = bucket_note ''proj'' \<and>
   Call (BucketDelete ''logs'') \<in> set (fst (deleteBuckets one_bucket False ''proj'')) \<and>
   touches Buckets (Call (BucketDelete ''logs''))"
proof -
  have vm: "([Log ''[%s] Checking VM instances...'' [S ''proj''],
      Call (InstancesAggregatedList ''proj''),
      Log ''[%s] No VM instances found'' [S ''proj'']], None)
     \<in> set (deleteVMInstances one_bucket False ''proj'')"
    by (simp add: deleteVMInstances_def one_bucket_def quiet_def)
  have sa: "([Log ''[%s] Checking service accounts...'' [S ''proj''],
      Call (ServiceAccountsList ''projects/proj''),
      Log (''[%s] No service accounts found with prefix '' @
           apostrophe @ ''vsa-sa-gcnv'' @ apostrophe) [S ''proj'']], None)
     \<in> set (deleteServiceAccounts one_bucket False ''proj'')"
    by (simp add: deleteServiceAccounts_def one_bucket_def quiet_def)
  have disks: "deleteDisks one_bucket False ''proj'' =
     ([Log ''[%s] Checking disks...'' [S ''proj''],
       Call (DisksAggregatedList ''proj''),
       Log ''[%s] No unattached disks found'' [S ''proj'']], None)"
    by (simp add: deleteDisks_def one_bucket_def quiet_def emit_def)
  have ips: "releaseStaticIPs one_bucket False ''proj'' =
     ([Log ''[%s] Checking static IP addresses...'' [S ''proj''],
       Call (AddressesAggregatedList ''proj''),
       Call (GlobalAddressesList ''proj''),
       Log ''[%s] No unused static IPs found'' [S ''proj'']], None)"
    by (simp add: releaseStaticIPs_def one_bucket_def quiet_def emit_def)
  have run: "one_bucket_trace \<in> set (cleanupProject one_bucket False ''proj'')"
    using cleanupProject_sequential [OF vm sa]
    by (simp add: disks ips log_failure_def one_bucket_trace_def)
  have "Call (BucketDelete ''logs'') \<in> set (fst (deleteBuckets one_bucket False ''proj''))"
    by (simp add: deleteBuckets_def one_bucket_def quiet_def emit_def delete_bucket_def)
  with orchestrator_never_touches_buckets [of one_bucket False "''proj''" "[]"] run
  show ?thesis
    by (simp add: list_all_iff)
qed

section \<open>Order of the cleaners within a project\<close>

text \<open>
  C6. Every run of the orchestrator for a project starts with a complete run of the VM
  cleaner, followed by the line that logs its error if it returned one, and only then
  come the requests and waits about disks, addresses and service accounts. The run of
  the VM cleaner is settled: each of its delete requests is followed, within it, by the
  wait on its operation if the provider accepted the request, and then by its failure
  line or its success line. It ends with one of the three last lines of the cleaner, or
  with the line that logs its error. None of its events is about a disk, an address or
  a service account, and no request or wait about instances occurs after it. The same
  read off the trace alone: the part of the trace before the first request or wait about
  a disk, an address or a service account is settled and holds the line that ends the VM
  cleaner; and every event about instances stands before every event about disks,
  addresses or service accounts.
\<close>

theorem vm_cleaner_completes_first:
  assumes "t \<in> set (cleanupProject w dry p)"
  shows "(\<exists>vm \<in> set (deleteVMInstances w dry p). \<exists>rest.
            t = fst vm @ vm_error_line p (snd vm) @ rest \<and>
            settled w [] (fst vm) \<and>
            vm_closing p (last (fst vm @ vm_error_line p (snd vm))) \<and>
            (\<forall>e \<in> set (fst vm).
               \<not> touches Disks e \<and> \<not> touches Addresses e \<and> \<not> touches Accounts e) \<and>
            (\<forall>e \<in> set rest. \<not> touches VMs e)) \<and>
         settled w [] (before_others t) \<and>
         list_ex (vm_closing p) (before_others t) \<and>
         (\<forall>i < length t. \<forall>j < length t.
            touches VMs (t ! i) \<and>
            (touches Disks (t ! j) \<or> touches Addresses (t ! j) \<or> touches Accounts (t ! j)) \<longrightarrow>
            i < j)"
proof -
  from assms obtain vm sa others where
    vm: "vm \<in> set (deleteVMInstances w dry p)" and
    sa: "sa \<in> set (deleteServiceAccounts w dry p)" and
    others: "others \<in> set (interleavings
         [fst (deleteDisks w dry p) @
            log_failure ''Error deleting disks in %s: %v'' p (snd (deleteDisks w dry p)),
          fst (releaseStaticIPs w dry p) @
            log_failure ''Error releasing static IPs in %s: %v'' p
              (snd (releaseStaticIPs w dry p)),
          fst sa @ log_failure ''Error deleting service accounts in %s: %v'' p (snd sa)])" and
    t: "t = fst vm @ vm_error_line p (snd vm) @ others @ [bucket_note p]"
    unfolding cleanupProject_iff vm_error_line_log_failure by blast
  define a where "a = fst vm @ vm_error_line p (snd vm)"
  define b where "b = others @ [bucket_note p]"
  have vm_pair: "(fst vm, snd vm) \<in> set (deleteVMInstances w dry p)"
    using vm by simp
  have first: "\<not> touches Disks e \<and> \<not> touches Addresses e \<and> \<not> touches Accounts e"
    if "e \<in> set (fst vm)" for e
  proof -
    have "cleaner_event VMs dry p e"
      using deleteVMInstances_events [OF vm_pair that] .
    then show ?thesis
      using cleaner_event_touches [of VMs dry p e] by blast
  qed
  have others_set: "set others = set (fst (deleteDisks w dry p)) \<union>
      set (log_failure ''Error deleting disks in %s: %v'' p (snd (deleteDisks w dry p))) \<union>
      set (fst (releaseStaticIPs w dry p)) \<union>
      set (log_failure ''Error releasing static IPs in %s: %v'' p
             (snd (releaseStaticIPs w dry p))) \<union>
      set (fst sa) \<union>
      set (log_failure ''Error deleting service accounts in %s: %v'' p (snd sa))"
    using interleavings_set [OF others] by auto
  have sa_pair: "(fst sa, snd sa) \<in> set (deleteServiceAccounts w dry p)"
    using sa by simp
  have kinds: "(\<forall>k. \<not> touches k e) \<or> cleaner_event Disks dry p e \<or>
      cleaner_event Addresses dry p e \<or> cleaner_event Accounts dry p e"
    if "e \<in> set b" for e
  proof -
    have "e = bucket_note p \<or> e \<in> set others"
      using that by (auto simp: b_def)
    then have "e = bucket_note p \<or>
        e \<in> set (fst (deleteDisks w dry p)) \<or>
        e \<in> set (log_failure ''Error deleting disks in %s: %v'' p (snd (deleteDisks w dry p))) \<or>
        e \<in> set (fst (releaseStaticIPs w dry p)) \<or>
        e \<in> set (log_failure ''Error releasing static IPs in %s: %v'' p
                    (snd (releaseStaticIPs w dry p))) \<or>
        e \<in> set (fst sa) \<or>
        e \<in> set (log_failure ''Error deleting service accounts in %s: %v'' p (snd sa))"
      unfolding others_set by blast
    then show ?thesis
      using deleteDisks_events [of e w dry p] releaseStaticIPs_events [of e w dry p]
        deleteServiceAccounts_events [OF sa_pair, of e] log_failure_touches [of e _ p]
        bucket_note_touches [of _ p]
      by blast
  qed
  have later: "\<not> touches VMs e" if "e \<in> set b" for e
    using kinds [OF that] cleaner_event_touches [of _ dry p e VMs] by auto
  have early: "\<not> touches Disks e \<and> \<not> touches Addresses e \<and> \<not> touches Accounts e"
    if "e \<in> set a" for e
    using that first vm_error_line_touches [of e p "snd vm"] unfolding a_def by auto
  have split: "t = a @ b"
    using t by (simp add: a_def b_def)
  have order: "i < j"
    if i: "i < length t" and j: "j < length t" and vi: "touches VMs (t ! i)" and
      oj: "touches Disks (t ! j) \<or> touches Addresses (t ! j) \<or> touches Accounts (t ! j)"
    for i j
  proof -
    have "i < length a"
    proof (rule ccontr)
      assume far: "\<not> i < length a"
      then have "t ! i = b ! (i - length a)" "i - length a < length b"
        using i split by (simp_all add: nth_append)
      then have "t ! i \<in> set b"
        by simp
      with later vi show False
        by blast
    qed
    moreover have "\<not> j < length a"
    proof
      assume "j < length a"
      then have "t ! j \<in> set a"
        using split by (simp add: nth_append)
      with early oj show False
        by blast
    qed
    ultimately show ?thesis
      by simp
  qed
  have vm_settled: "settled w [] (fst vm)"
    using settled_run [OF deleteVMInstances_run [OF vm_pair]] .
  have closing: "vm_closing p (last a)"
  proof (cases "snd vm")
    case None
    then show ?thesis
      using deleteVMInstances_closing [OF vm_pair] by (simp add: a_def vm_error_line_def)
  next
    case (Some e)
    then show ?thesis
      unfolding a_def by (intro vm_error_line_closing) simp
  qed
  have a_nonempty: "a \<noteq> []"
    using deleteVMInstances_closing [OF vm_pair] by (simp add: a_def)
  have a_settled: "settled w [] a"
    unfolding a_def
    using vm_settled settled_no_calls [of "vm_error_line p (snd vm)" w "[]"]
      vm_error_line_no_calls [of _ p "snd vm"]
    by (intro settled_append) simp_all
  define quiet_part where "quiet_part =
    takeWhile (\<lambda>e. \<not> touches Disks e \<and> \<not> touches Addresses e \<and> \<not> touches Accounts e) b"
  have before: "before_others t = a @ quiet_part"
    unfolding before_others_def split quiet_part_def using early
    by (simp add: takeWhile_append2)
  have no_calls: "Call c \<notin> set quiet_part" for c
  proof
    assume mem: "Call c \<in> set quiet_part"
    then have in_b: "Call c \<in> set b"
      unfolding quiet_part_def by (rule set_takeWhileD [THEN conjunct1])
    have untouched: "\<not> touches Disks (Call c) \<and> \<not> touches Addresses (Call c) \<and>
        \<not> touches Accounts (Call c)"
      using set_takeWhileD [OF mem [unfolded quiet_part_def]] by simp
    from kinds [OF in_b] show False
    proof (elim disjE)
      assume "\<forall>k. \<not> touches k (Call c)"
      then show False
        by simp
    next
      assume "cleaner_event Disks dry p (Call c)"
      then show False
        using untouched by (cases c) simp_all
    next
      assume "cleaner_event Addresses dry p (Call c)"
      then show False
        using untouched by (cases c) simp_all
    next
      assume "cleaner_event Accounts dry p (Call c)"
      then show False
        using untouched by (cases c) simp_all
    qed
  qed
  have p5: "settled w [] (before_others t)"
    unfolding before
    using a_settled settled_no_calls [of quiet_part w "[]"] no_calls
    by (intro settled_append) simp_all
  have "last a \<in> set (before_others t)"
    unfolding before using a_nonempty by simp
  with closing have p6: "list_ex (vm_closing p) (before_others t)"
    unfolding list_ex_iff by blast
  have p1: "t = fst vm @ vm_error_line p (snd vm) @ b"
    using split by (simp add: a_def)
  have p2: "\<forall>e \<in> set (fst vm).
      \<not> touches Disks e \<and> \<not> touches Addresses e \<and> \<not> touches Accounts e"
    using first by blast
  have p3: "\<forall>e \<in> set b. \<not> touches VMs e"
    using later by blast
  have p4: "\<forall>i < length t. \<forall>j < length t.
      touches VMs (t ! i) \<and>
      (touches Disks (t ! j) \<or> touches Addresses (t ! j) \<or> touches Accounts (t ! j)) \<longrightarrow>
      i < j"
    using order by blast
  have p7: "vm_closing p (last (fst vm @ vm_error_line p (snd vm)))"
    using closing by (simp add: a_def)
  show ?thesis
    by (intro conjI bexI [of _ vm] exI [of _ b] p1 p2 p3 p4 p5 p6 p7 vm_settled vm)
qed

theorem vm_cleaner_completes_first_witness:
  "instance_and_disk_vm_run @ vm_and_disk_rest
     \<in> set (cleanupProject instance_and_disk False ''proj'') \<and>
   before_others (instance_and_disk_vm_run @ vm_and_disk_rest) =
     instance_and_disk_vm_run @ [Log ''[%s] Checking disks...'' [S ''proj'']] \<and>
   accepted instance_and_disk (InstancesDelete ''proj'' ''z1'' ''vm1'') \<and>
   Wait (InstancesDelete ''proj'' ''z1'' ''vm1'') \<in> set instance_and_disk_vm_run \<and>
   settled instance_and_disk [] (before_others (instance_and_disk_vm_run @ vm_and_disk_rest)) \<and>
   list_ex (vm_closing ''proj'') (before_others (instance_and_disk_vm_run @ vm_and_disk_rest)) \<and>
   (\<exists>vm \<in> set (deleteVMInstances instance_and_disk False ''proj''). \<exists>rest.
      instance_and_disk_vm_run @ vm_and_disk_rest =
        fst vm @ vm_error_line ''proj'' (snd vm) @ rest \<and>
      settled instance_and_disk [] (fst vm) \<and>
      vm_closing ''proj'' (last (fst vm @ vm_error_line ''proj'' (snd vm))) \<and>
      (\<forall>e \<in> set (fst vm).
         \<not> touches Disks e \<and> \<not> touches Addresses e \<and> \<not> touches Accounts e) \<and>
      (\<forall>e \<in> set rest. \<not> touches VMs e)) \<and>
   \<not> (\<exists>i j. i < length (instance_and_disk_vm_run @ vm_and_disk_rest) \<and>
          j < length (instance_and_disk_vm_run @ vm_and_disk_rest) \<and>
          touches VMs ((instance_and_disk_vm_run @ vm_and_disk_rest) ! i) \<and>
          touches Disks ((instance_and_disk_vm_run @ vm_and_disk_rest) ! j) \<and> j \<le> i) \<and>
   unlisted_vm_run @ [unlisted_error_line] @ vm_and_disk_rest
     \<in> set (cleanupProject unlisted False ''proj'') \<and>
   before_others (unlisted_vm_run @ [unlisted_error_line] @ vm_and_disk_rest) =
     unlisted_vm_run @ [unlisted_error_line, Log ''[%s] Checking disks...'' [S ''proj'']] \<and>
   list_ex (vm_closing ''proj'')
     (before_others (unlisted_vm_run @ [unlisted_error_line] @ vm_and_disk_rest))"
proof -
  let ?t = "instance_and_disk_vm_run @ vm_and_disk_rest"
  let ?u = "unlisted_vm_run @ [unlisted_error_line] @ vm_and_disk_rest"
  have before_t: "before_others ?t =
      instance_and_disk_vm_run @ [Log ''[%s] Checking disks...'' [S ''proj'']]"
    by (simp add: before_others_def instance_and_disk_vm_run_def vm_and_disk_rest_def)
  have before_u: "before_others ?u =
      unlisted_vm_run @ [unlisted_error_line, Log ''[%s] Checking disks...'' [S ''proj'']]"
    by (simp add: before_others_def unlisted_vm_run_def unlisted_error_line_def
          vm_and_disk_rest_def)
  have acc: "accepted instance_and_disk (InstancesDelete ''proj'' ''z1'' ''vm1'')"
    by (simp add: instance_and_disk_def quiet_def)
  have wait: "Wait (InstancesDelete ''proj'' ''z1'' ''vm1'') \<in> set instance_and_disk_vm_run"
    by (simp add: instance_and_disk_vm_run_def)
  note inst = vm_cleaner_completes_first [OF instance_and_disk_orchestrated]
  note fail = vm_cleaner_completes_first [OF unlisted_orchestrated]
  have order: "\<not> (\<exists>i j. i < length ?t \<and> j < length ?t \<and>
          touches VMs (?t ! i) \<and> touches Disks (?t ! j) \<and> j \<le> i)"
    using conjunct2 [OF conjunct2 [OF conjunct2 [OF inst]]] by (meson not_le)
  show ?thesis
    by (intro conjI instance_and_disk_orchestrated unlisted_orchestrated before_t before_u
          acc wait order conjunct1 [OF inst] conjunct1 [OF conjunct2 [OF inst]]
          conjunct1 [OF conjunct2 [OF conjunct2 [OF inst]]]
          conjunct1 [OF conjunct2 [OF conjunct2 [OF fail]]])
qed

section \<open>Waiting for completion\<close>




section \<open>Sequential disks, concurrent instances and service accounts\<close>

text \<open>
  C9. The disk cleaner deletes strictly sequentially: in its trace a delete request is
  sent only while no operation is pending, each accepted request is followed by the wait
  on its operation before anything else is requested, and no delete request follows
  another at once. The instance and the service-account cleaners delete concurrently:
  as soon as there are two items to delete, there is a run in which the second delete
  request is sent right after the first, before the first was waited for or reported.
\<close>

theorem disks_sequential_instances_and_accounts_concurrent:
  "strictly_sequential w None (fst (deleteDisks w dry p)) \<and>
   \<not> overlapping (fst (deleteDisks w dry p)) \<and>
   (newInstancesClient w = None \<and> completes (instancesAggregatedList w p) \<and>
    2 \<le> length (listed (instancesAggregatedList w p)) \<longrightarrow>
      (\<exists>r \<in> set (deleteVMInstances w False p). overlapping (fst r))) \<and>
   (newIamService w = None \<and> serviceAccountsList w (''projects/'' @ p) = Inr accounts \<and>
    2 \<le> length (filter is_target_account accounts) \<longrightarrow>
      (\<exists>r \<in> set (deleteServiceAccounts w False p). overlapping (fst r)))"
  using strictly_sequential_run [OF deleteDisks_run [of w "[]" dry p]]
    tidy_run [OF deleteDisks_run [of w "[]" dry p]]
    deleteVMInstances_overlap [of w p] deleteServiceAccounts_overlap [of w p accounts]
  by blast

theorem disks_sequential_instances_and_accounts_concurrent_witness:
  "delete_calls (fst (deleteDisks pairs False ''proj'')) =
     [DisksDelete ''proj'' ''z1'' ''spare1'', DisksDelete ''proj'' ''z1'' ''spare2''] \<and>
   strictly_sequential pairs None (fst (deleteDisks pairs False ''proj'')) \<and>
   \<not> overlapping (fst (deleteDisks pairs False ''proj'')) \<and>
   length (listed (instancesAggregatedList pairs ''proj'')) = 2 \<and>
   (\<exists>r \<in> set (deleteVMInstances pairs False ''proj''). overlapping (fst r)) \<and>
   length (filter is_target_account
     [automation_account,
      \<lparr>sa_name = ''projects/proj/serviceAccounts/vsa-sa-gcnv-456@proj.iam'',
       sa_email = ''vsa-sa-gcnv-456@proj.iam'', sa_displayName = ''automation''\<rparr>]) = 2 \<and>
   (\<exists>r \<in> set (deleteServiceAccounts pairs False ''proj''). overlapping (fst r))"
proof -
  let ?accounts = "[automation_account,
      \<lparr>sa_name = ''projects/proj/serviceAccounts/vsa-sa-gcnv-456@proj.iam'',
       sa_email = ''vsa-sa-gcnv-456@proj.iam'', sa_displayName = ''automation''\<rparr>]"
  have second: "is_target_account
      \<lparr>sa_name = ''projects/proj/serviceAccounts/vsa-sa-gcnv-456@proj.iam'',
       sa_email = ''vsa-sa-gcnv-456@proj.iam'', sa_displayName = ''automation''\<rparr>"
    by (simp add: is_target_account_def strings_Split.simps strings_HasPrefix_def)
  have accounts: "length (filter is_target_account ?accounts) = 2"
    using automation_account_target second by simp
  have listing: "serviceAccountsList pairs (''projects/'' @ ''proj'') = Inr ?accounts"
    by (simp add: pairs_def quiet_def)
  have clients: "newInstancesClient pairs = None" "newIamService pairs = None"
    by (simp_all add: pairs_def quiet_def)
  have instances: "completes (instancesAggregatedList pairs ''proj'')"
    "length (listed (instancesAggregatedList pairs ''proj'')) = 2"
    by (simp_all add: pairs_def quiet_def)
  have calls: "delete_calls (fst (deleteDisks pairs False ''proj'')) =
     [DisksDelete ''proj'' ''z1'' ''spare1'', DisksDelete ''proj'' ''z1'' ''spare2'']"
    by (simp add: deleteDisks_calls disk_delete_call_def zone_z1 pairs_def quiet_def)
  show ?thesis
    using disks_sequential_instances_and_accounts_concurrent
            [of pairs False "''proj''" ?accounts]
      accounts listing clients instances calls
    by simp
qed

section \<open>Failures do not stop the run\<close>

text \<open>
  C8. Whatever fails, the driver has a run, and each of its runs is: the two opening
  lines, then for every configured project, in order, its section line followed by a
  complete run of the orchestrator for that project, then the completion banner; no error
  of a cleaner goes further than the log. Within a live run of the orchestrator every
  candidate gets exactly one delete request, whatever the provider answers to the
  requests: a failed deletion is not retried and does not keep the other candidates from
  being deleted. A delete request that the provider makes fail, at the request or at the
  wait, is logged with the name of the item; for a service account, with its email.
\<close>

theorem failures_are_logged_and_do_not_stop_the_run:
  "main w dry ids \<noteq> [] \<and>
   (\<forall>t \<in> set (main w dry ids).
      last t = Log (newline @ ''========== Cleanup Complete =========='') [] \<and>
      (\<exists>cs. list_all2 (\<lambda>p c. c \<in> set (cleanupProject w dry p)) ids cs \<and>
         t = [Log ''Starting GCP cleanup script (Dry Run: %v)'' [B dry],
              Log ''Projects to clean: %v'' [Strs ids]] @
             concat (map (\<lambda>(p, c).
               Log (newline @ ''========== Processing Project: %s =========='') [S p] # c)
               (zip ids cs)) @
             [Log (newline @ ''========== Cleanup Complete =========='') []])) \<and>
   (\<forall>c \<in> set (cleanupProject w False p).
      mset (delete_calls c) = mset (candidate_deletes w p) \<and>
      (\<forall>x l. Call x \<in> set c \<and> failure_line w x = Some l \<longrightarrow> l \<in> set c) \<and>
      (\<forall>a e. newIamService w = None \<and>
             serviceAccountsList w (''projects/'' @ p) = Inr accounts \<and>
             a \<in> set accounts \<and> is_target_account a \<and>
             serviceAccountsDelete w (sa_name a) = Some e \<longrightarrow>
             Log ''  ERROR deleting service account %s: %v'' [S (sa_email a), Err e] \<in> set c))"
proof (intro conjI ballI allI impI)
  show "main w dry ids \<noteq> []"
    by (rule main_nonempty)
next
  fix t
  assume "t \<in> set (main w dry ids)"
  then show "last t = Log (newline @ ''========== Cleanup Complete =========='') []"
    using main_structure by blast
next
  fix t
  assume "t \<in> set (main w dry ids)"
  then show "\<exists>cs. list_all2 (\<lambda>p c. c \<in> set (cleanupProject w dry p)) ids cs \<and>
         t = [Log ''Starting GCP cleanup script (Dry Run: %v)'' [B dry],
              Log ''Projects to clean: %v'' [Strs ids]] @
             concat (map (\<lambda>(p, c).
               Log (newline @ ''========== Processing Project: %s =========='') [S p] # c)
               (zip ids cs)) @
             [Log (newline @ ''========== Cleanup Complete =========='') []]"
    using main_structure by blast
next
  fix c
  assume "c \<in> set (cleanupProject w False p)"
  then show "mset (delete_calls c) = mset (candidate_deletes w p)"
    by (rule cleanupProject_calls)
next
  fix c x l
  assume "c \<in> set (cleanupProject w False p)"
    and "Call x \<in> set c \<and> failure_line w x = Some l"
  then show "l \<in> set c"
    using failure_line_run [OF cleanupProject_run [OF _ subset_refl]] by blast
next
  fix c a e
  assume "c \<in> set (cleanupProject w False p)"
    and "newIamService w = None \<and>
         serviceAccountsList w (''projects/'' @ p) = Inr accounts \<and>
         a \<in> set accounts \<and> is_target_account a \<and>
         serviceAccountsDelete w (sa_name a) = Some e"
  then show "Log ''  ERROR deleting service account %s: %v'' [S (sa_email a), Err e] \<in> set c"
    using cleanupProject_account_failure by blast
qed

theorem failures_are_logged_and_do_not_stop_the_run_witness:
  "unreachable_run \<in> set (main unreachable False [''a'', ''b'']) \<and>
   last unreachable_run = Log (newline @ ''========== Cleanup Complete =========='') [] \<and>
   stubborn_run \<in> set (cleanupProject stubborn False ''proj'') \<and>
   candidate_deletes stubborn ''proj'' =
     [DisksDelete ''proj'' ''z1'' ''first'', DisksDelete ''proj'' ''z1'' ''second'',
      ServiceAccountsDelete ''projects/proj/serviceAccounts/vsa-sa-gcnv-123@proj.iam''] \<and>
   mset (delete_calls stubborn_run) = mset (candidate_deletes stubborn ''proj'') \<and>
   Call (DisksDelete ''proj'' ''z1'' ''first'') \<in> set stubborn_run \<and>
   failure_line stubborn (DisksDelete ''proj'' ''z1'' ''first'') =
     Some (Log ''  ERROR deleting disk %s: %v'' [S ''first'', Err ''resource busy'']) \<and>
   Log ''  ERROR deleting disk %s: %v'' [S ''first'', Err ''resource busy''] \<in> set stubborn_run \<and>
   serviceAccountsDelete stubborn (sa_name automation_account) = Some ''permission denied'' \<and>
   Log ''  ERROR deleting service account %s: %v''
     [S (sa_email automation_account), Err ''permission denied''] \<in> set stubborn_run"
proof -
  note driver = failures_are_logged_and_do_not_stop_the_run
    [of unreachable False "[''a'', ''b'']" "''proj''" "[]"]
  note inst = failures_are_logged_and_do_not_stop_the_run
    [of stubborn False "[]" "''proj''" "[automation_account]"]
  have banner: "last unreachable_run = Log (newline @ ''========== Cleanup Complete =========='') []"
    using driver unreachable_run_mem by blast
  have candidates: "candidate_deletes stubborn ''proj'' =
     [DisksDelete ''proj'' ''z1'' ''first'', DisksDelete ''proj'' ''z1'' ''second'',
      ServiceAccountsDelete ''projects/proj/serviceAccounts/vsa-sa-gcnv-123@proj.iam'']"
    using automation_account_target
    by (simp add: candidate_deletes_def stubborn_def quiet_def disk_delete_call_def zone_z1
          unused_regional_def unused_global_def account_delete_call_def)
       (simp add: automation_account_def)
  have calls: "mset (delete_calls stubborn_run) = mset (candidate_deletes stubborn ''proj'')"
    using inst stubborn_run_mem by blast
  have request: "Call (DisksDelete ''proj'' ''z1'' ''first'') \<in> set stubborn_run"
    by (simp add: stubborn_run_def)
  have line: "failure_line stubborn (DisksDelete ''proj'' ''z1'' ''first'') =
     Some (Log ''  ERROR deleting disk %s: %v'' [S ''first'', Err ''resource busy''])"
    by (simp add: stubborn_def quiet_def)
  have logged: "Log ''  ERROR deleting disk %s: %v'' [S ''first'', Err ''resource busy'']
      \<in> set stubborn_run"
    using inst stubborn_run_mem request line by blast
  have account: "newIamService stubborn = None"
    "serviceAccountsList stubborn (''projects/'' @ ''proj'') = Inr [automation_account]"
    "serviceAccountsDelete stubborn (sa_name automation_account) = Some ''permission denied''"
    by (simp_all add: stubborn_def quiet_def)
  have account_logged: "Log ''  ERROR deleting service account %s: %v''
     [S (sa_email automation_account), Err ''permission denied''] \<in> set stubborn_run"
    using inst stubborn_run_mem account automation_account_target by simp
  show ?thesis
    by (intro conjI unreachable_run_mem banner stubborn_run_mem candidates calls request line
          logged account(3) account_logged)
qed

end
